theory Spec2Isabelle
  imports Complex_Main "HOL-Library.Multiset"
begin

section \<open>Vectors\<close>

text \<open>
  The engine works on three.js \<open>Vector3\<close> objects. Their components are JavaScript
  numbers; the model takes them to be real numbers, so every statement below is about
  exact arithmetic (no rounding, no NaN, no signed zero).
\<close>

datatype Vector3 = Vector3 (vx: real) (vy: real) (vz: real)

definition dot :: "Vector3 \<Rightarrow> Vector3 \<Rightarrow> real" where
  "dot a b = vx a * vx b + vy a * vy b + vz a * vz b"

definition subVectors :: "Vector3 \<Rightarrow> Vector3 \<Rightarrow> Vector3" where
  "subVectors a b = Vector3 (vx a - vx b) (vy a - vy b) (vz a - vz b)"

definition crossVectors :: "Vector3 \<Rightarrow> Vector3 \<Rightarrow> Vector3" where
  "crossVectors a b =
     Vector3 (vy a * vz b - vz a * vy b) (vz a * vx b - vx a * vz b) (vx a * vy b - vy a * vx b)"

definition addScaledVector :: "Vector3 \<Rightarrow> Vector3 \<Rightarrow> real \<Rightarrow> Vector3" where
  "addScaledVector a v s = Vector3 (vx a + vx v * s) (vy a + vy v * s) (vz a + vz v * s)"

definition negate :: "Vector3 \<Rightarrow> Vector3" where
  "negate a = Vector3 (- vx a) (- vy a) (- vz a)"

definition vlength :: "Vector3 \<Rightarrow> real" where
  "vlength a = sqrt (vx a * vx a + vy a * vy a + vz a * vz a)"

text \<open>
  \<open>normalize\<close> divides by \<open>length() || 1\<close>: the zero vector stays the zero vector.
\<close>

definition normalize :: "Vector3 \<Rightarrow> Vector3" where
  "normalize a =
     (let l = (if vlength a = 0 then 1 else vlength a)
      in Vector3 (vx a / l) (vy a / l) (vz a / l))"

section \<open>Faces\<close>

record Face =
  centroid :: Vector3
  normal :: Vector3
  verts :: "Vector3 list"

section \<open>Face numbering\<close>

definition D6_NUMBERS :: "int list" where
  "D6_NUMBERS = [1, 6, 2, 5, 3, 4]"

text \<open>The test of the pairing loop: the normals of faces \<open>i\<close> and \<open>j\<close> are anti-parallel.\<close>

definition opposite :: "Face list \<Rightarrow> nat \<Rightarrow> nat \<Rightarrow> bool" where
  "opposite faces i j \<longleftrightarrow> dot (normal (faces ! i)) (normal (faces ! j)) < - 0.99"

text \<open>
  The inner loop over \<open>j = i + 1, ..., n - 1\<close>: the first unused \<open>j\<close> opposite to \<open>i\<close>,
  if there is one.
\<close>

fun findOpposite :: "Face list \<Rightarrow> nat set \<Rightarrow> nat \<Rightarrow> nat list \<Rightarrow> nat option" where
  "findOpposite faces used i [] = None"
| "findOpposite faces used i (j # js) =
     (if j \<in> used then findOpposite faces used i js
      else if opposite faces i j then Some j
      else findOpposite faces used i js)"

text \<open>
  The outer loop over \<open>i\<close>, on the state \<open>(pairs, used)\<close>. An entry of \<open>pairs\<close> is
  \<open>[i, j]\<close>, or \<open>[i, -1]\<close> for a face without a partner.
\<close>

fun pairLoop ::
  "Face list \<Rightarrow> nat list \<Rightarrow> (nat \<times> int) list \<times> nat set \<Rightarrow> (nat \<times> int) list \<times> nat set" where
  "pairLoop faces [] st = st"
| "pairLoop faces (i # is) (pairs, used) =
     (if i \<in> used then pairLoop faces is (pairs, used)
      else case findOpposite faces used i [Suc i..<length faces] of
             Some j \<Rightarrow> pairLoop faces is (pairs @ [(i, int j)], insert j (insert i used))
           | None \<Rightarrow> pairLoop faces is (pairs @ [(i, - 1)], insert i used))"

definition findPairs :: "Face list \<Rightarrow> (nat \<times> int) list" where
  "findPairs faces = fst (pairLoop faces [0..<length faces] ([], {}))"

text \<open>
  The two numbering loops differ only in the number given to entry \<open>k\<close>: \<open>k + 1\<close> in
  general, \<open>2 k + 1\<close> for the ten-sided die. \<open>assignLoop\<close> is the loop, with that number
  as the function \<open>num\<close>. Every index found in \<open>pairs\<close> is a face index (lemma
  \<open>findPairs_cover\<close> below), so each assignment is an update in range.
\<close>

fun assignLoop :: "(nat \<Rightarrow> int) \<Rightarrow> int \<Rightarrow> (nat \<times> int) list \<Rightarrow> nat \<Rightarrow> int list \<Rightarrow> int list" where
  "assignLoop num target [] k numbers = numbers"
| "assignLoop num target (p # ps) k numbers =
     (let numbers1 = numbers[fst p := num k];
          numbers2 = (if snd p \<ge> 0 then numbers1[nat (snd p) := target - num k] else numbers1)
      in assignLoop num target ps (Suc k) numbers2)"

text \<open>
  \<open>Math.atan2\<close> on real numbers (its values at signed zeros and NaN are outside the model).
\<close>

definition atan2 :: "real \<Rightarrow> real \<Rightarrow> real" where
  "atan2 y x =
     (if x > 0 then arctan (y / x)
      else if x < 0 \<and> y \<ge> 0 then arctan (y / x) + pi
      else if x < 0 then arctan (y / x) - pi
      else if y > 0 then pi / 2
      else if y < 0 then - pi / 2
      else 0)"

text \<open>The ten-sided die: the face with the larger centroid height comes first in its pair.\<close>

definition topFirst :: "Face list \<Rightarrow> nat \<times> int \<Rightarrow> nat \<times> int" where
  "topFirst faces p =
     (if snd p \<ge> 0 \<and> vy (centroid (faces ! fst p)) < vy (centroid (faces ! nat (snd p)))
      then (nat (snd p), int (fst p)) else p)"

definition azimuth :: "Face list \<Rightarrow> nat \<times> int \<Rightarrow> real" where
  "azimuth faces p = atan2 (vz (centroid (faces ! fst p))) (vx (centroid (faces ! fst p)))"

text \<open>
  \<open>Array.prototype.sort\<close> is a stable sort; with the comparator \<open>aA - bA\<close> on real
  angles it sorts by the key \<open>azimuth\<close>, which is what \<open>sort_key\<close> (a stable insertion
  sort) computes.
\<close>

definition computeFaceNumbers :: "Face list \<Rightarrow> int \<Rightarrow> int list" where
  "computeFaceNumbers faces sides =
     (if sides = 6 then D6_NUMBERS
      else if sides = 4 then [1, 2, 3, 4]
      else
        let n = length faces;
            numbers = replicate n 0;
            target = sides + 1;
            pairs = findPairs faces
        in if sides = 10
           then assignLoop (\<lambda>k. int k * 2 + 1) target
                  (sort_key (azimuth faces) (map (topFirst faces) pairs)) 0 numbers
           else assignLoop (\<lambda>k. int k + 1) target pairs 0 numbers)"

section \<open>Notions used to state and prove the numbering properties\<close>

text \<open>The face indices that occur in a list of pair entries, in order (\<open>-1\<close> is no index).\<close>

definition pairMembers :: "(nat \<times> int) list \<Rightarrow> nat list" where
  "pairMembers pairs = concat (map (\<lambda>p. if snd p \<ge> 0 then [fst p, nat (snd p)] else [fst p]) pairs)"

text \<open>Every face has exactly one anti-parallel partner among the faces of the list.\<close>

definition onePartner :: "Face list \<Rightarrow> bool" where
  "onePartner faces =
     list_all (\<lambda>i. length (filter (opposite faces i) [0..<length faces]) = 1) [0..<length faces]"

text \<open>The invariant of the pairing loop on its state \<open>(pairs, used)\<close>.\<close>

definition pairInv :: "Face list \<Rightarrow> (nat \<times> int) list \<Rightarrow> nat set \<Rightarrow> bool" where
  "pairInv faces pairs used \<longleftrightarrow>
     used = set (pairMembers pairs) \<and> distinct (pairMembers pairs) \<and>
     used \<subseteq> {..<length faces} \<and>
     (\<forall>p \<in> set pairs. snd p = - 1 \<or> (0 \<le> snd p \<and> fst p < nat (snd p) \<and> opposite faces (fst p) (nat (snd p))))"

text \<open>A list of pair entries that holds every face at most once, each entry an opposite pair.\<close>

definition goodPairs :: "Face list \<Rightarrow> (nat \<times> int) list \<Rightarrow> bool" where
  "goodPairs faces ps \<longleftrightarrow>
     distinct (pairMembers ps) \<and> set (pairMembers ps) \<subseteq> {..<length faces} \<and>
     (\<forall>p \<in> set ps. 0 \<le> snd p \<and> opposite faces (fst p) (nat (snd p)))"

text \<open>The pair list of the ten-sided die after the reorientation and the sort.\<close>

definition d10Pairs :: "Face list \<Rightarrow> (nat \<times> int) list" where
  "d10Pairs faces = sort_key (azimuth faces) (map (topFirst faces) (findPairs faces))"

text \<open>
  The pair list in the order in which the numbering loop reads it: entry \<open>k\<close> of this
  list is the entry that the loop numbers in its round \<open>k\<close>.
\<close>

definition numberedPairs :: "Face list \<Rightarrow> int \<Rightarrow> (nat \<times> int) list" where
  "numberedPairs faces sides = (if sides = 10 then d10Pairs faces else findPairs faces)"

section \<open>Colours\<close>

text \<open>
  The values \<open>parseColor\<close> can receive and return: a number (\<open>NaN\<close> and the two
  infinities apart), a string, a member that an object literal inherits from
  \<open>Object.prototype\<close> (named by its key), and any other value (\<open>undefined\<close>, \<open>null\<close>, a
  boolean, an object). A string is the list of the bytes of its UTF-8 encoding.
\<close>

datatype jsvalue =
    JNumber real
  | JNaN
  | JInfinity
  | JNegInfinity
  | JString string
  | JInherited string
  | JOther

definition TAILWIND_MAP :: "(string \<times> int) list" where
  "TAILWIND_MAP =
     [(''bg-purple-500'', 0xa855f7),
      (''bg-blue-500'', 0x3b82f6),
      (''bg-green-500'', 0x22c55e),
      (''bg-yellow-500'', 0xeab308),
      (''bg-orange-500'', 0xf97316),
      (''bg-red-500'', 0xef4444),
      (''bg-pink-500'', 0xec4899),
      (''bg-gray-500'', 0x6b7280)]"

text \<open>
  \<open>TAILWIND_MAP\<close> is an object literal, so \<open>TAILWIND_MAP[color]\<close> reads its own
  properties first and then those of \<open>Object.prototype\<close>, which are functions (or, for
  \<open>__proto__\<close>, the prototype object).
\<close>

definition objectPrototypeKeys :: "string list" where
  "objectPrototypeKeys =
     [''constructor'', ''__defineGetter__'', ''__defineSetter__'', ''hasOwnProperty'',
      ''__lookupGetter__'', ''__lookupSetter__'', ''isPrototypeOf'', ''propertyIsEnumerable'',
      ''toString'', ''valueOf'', ''__proto__'', ''toLocaleString'']"

definition getProperty :: "(string \<times> int) list \<Rightarrow> string \<Rightarrow> jsvalue option" where
  "getProperty obj key =
     (case map_of obj key of
        Some v \<Rightarrow> Some (JNumber (of_int v))
      | None \<Rightarrow> if key \<in> set objectPrototypeKeys then Some (JInherited key) else None)"

fun truthy :: "jsvalue \<Rightarrow> bool" where
  "truthy (JNumber x) = (x \<noteq> 0)"
| "truthy JNaN = False"
| "truthy JInfinity = True"
| "truthy JNegInfinity = True"
| "truthy (JString s) = (s \<noteq> [])"
| "truthy (JInherited k) = True"
| "truthy JOther = True"

text \<open>
  \<open>parseInt(s, 16)\<close>: leading white space is skipped, then a sign and a \<open>0x\<close> prefix are
  accepted, and the longest run of hexadecimal digits is read; no digit gives \<open>NaN\<close>.
  The integer that the digits denote is rounded to a double.
\<close>

definition hexDigit :: "char \<Rightarrow> nat option" where
  "hexDigit c =
     (let n = of_char c :: nat in
      if 48 \<le> n \<and> n \<le> 57 then Some (n - 48)
      else if 97 \<le> n \<and> n \<le> 102 then Some (n - 87)
      else if 65 \<le> n \<and> n \<le> 70 then Some (n - 55)
      else None)"

text \<open>
  The white space and line terminator characters of the language, by their UTF-8 bytes:
  U+0009 to U+000D and U+0020 (one byte), U+00A0 (C2 A0), U+1680 (E1 9A 80), U+2000 to
  U+200A, U+2028, U+2029 and U+202F (E2 80 ..), U+205F (E2 81 9F), U+3000 (E3 80 80) and
  U+FEFF (EF BB BF). \<open>whiteSpaceLength\<close> is the number of bytes of the white space
  character that a byte list starts with, 0 if it starts with none.
\<close>

definition whiteSpaceLength :: "nat list \<Rightarrow> nat" where
  "whiteSpaceLength bs =
     (if take 1 bs \<in> {[9], [10], [11], [12], [13], [32]} then 1
      else if take 2 bs = [0xC2, 0xA0] then 2
      else if take 3 bs = [0xE1, 0x9A, 0x80] then 3
      else if take 2 bs = [0xE2, 0x80] \<and> length bs \<ge> 3 \<and>
              ((0x80 \<le> bs ! 2 \<and> bs ! 2 \<le> 0x8A) \<or> bs ! 2 \<in> {0xA8, 0xA9, 0xAF}) then 3
      else if take 3 bs = [0xE2, 0x81, 0x9F] then 3
      else if take 3 bs = [0xE3, 0x80, 0x80] then 3
      else if take 3 bs = [0xEF, 0xBB, 0xBF] then 3
      else 0)"

fun skipWhiteSpace :: "nat \<Rightarrow> string \<Rightarrow> string" where
  "skipWhiteSpace 0 s = s"
| "skipWhiteSpace (Suc n) s =
     (let k = whiteSpaceLength (map of_char s)
      in if k = 0 then s else skipWhiteSpace n (drop k s))"

text \<open>Every round drops at least one byte, so \<open>length s\<close> rounds are enough.\<close>

definition trimStart :: "string \<Rightarrow> string" where
  "trimStart s = skipWhiteSpace (length s) s"

fun hexPrefix :: "string \<Rightarrow> nat list" where
  "hexPrefix [] = []"
| "hexPrefix (c # cs) = (case hexDigit c of None \<Rightarrow> [] | Some d \<Rightarrow> d # hexPrefix cs)"

text \<open>
  The double nearest to a natural number, ties to the even significand; \<open>None\<close> is
  \<open>Infinity\<close>. \<open>excessBits n m\<close> counts the low bits of \<open>m\<close> that do not fit into the 53
  bits of the significand (in at most \<open>n\<close> rounds; a number below \<open>16 ^ d\<close> needs no
  more than \<open>4 d\<close>).
\<close>

fun excessBits :: "nat \<Rightarrow> nat \<Rightarrow> nat" where
  "excessBits 0 m = 0"
| "excessBits (Suc n) m = (if m < 2 ^ 53 then 0 else Suc (excessBits n (m div 2)))"

definition toDouble :: "nat \<Rightarrow> nat \<Rightarrow> nat option" where
  "toDouble digits m =
     (let e = excessBits (4 * digits) m;
          q = m div 2 ^ e;
          r = m mod 2 ^ e;
          q' = (if 2 * r > 2 ^ e \<or> (2 * r = 2 ^ e \<and> odd q) then q + 1 else q)
      in if q' * 2 ^ e \<ge> 2 ^ 1024 then None else Some (q' * 2 ^ e))"

definition parseInt16 :: "string \<Rightarrow> jsvalue" where
  "parseInt16 str =
     (let s = trimStart str;
          sign = (if take 1 s = ''-'' then - 1 else 1 :: int);
          s1 = (if take 1 s = ''-'' \<or> take 1 s = ''+'' then drop 1 s else s);
          s2 = (if take 2 s1 = ''0x'' \<or> take 2 s1 = ''0X'' then drop 2 s1 else s1);
          z = hexPrefix s2
      in if z = [] then JNaN
         else case toDouble (length z) (foldl (\<lambda>acc d. acc * 16 + d) 0 z) of
                None \<Rightarrow> if sign < 0 then JNegInfinity else JInfinity
              | Some m \<Rightarrow> JNumber (of_int (sign * int m)))"

definition parseColor :: "jsvalue \<Rightarrow> jsvalue" where
  "parseColor color =
     (case color of
        JNumber x \<Rightarrow> color
      | JNaN \<Rightarrow> color
      | JInfinity \<Rightarrow> color
      | JNegInfinity \<Rightarrow> color
      | JString s \<Rightarrow>
          if take 1 s = ''#'' then parseInt16 (drop 1 s)
          else (case getProperty TAILWIND_MAP s of
                  Some v \<Rightarrow> if truthy v then v else JNumber 0x6b7280
                | None \<Rightarrow> JNumber 0x6b7280)
      | _ \<Rightarrow> JNumber 0x6b7280)"

section \<open>The settle orientation of a face\<close>

text \<open>
  The reference "world up" vector for the normalised face normal \<open>n\<close>: (0,1,0), or
  (0,0,1) when \<open>Math.abs(n.dot(ref)) > 0.99\<close>.
\<close>

definition settleRef :: "Vector3 \<Rightarrow> Vector3" where
  "settleRef n =
     (let ref = Vector3 0 1 0
      in if \<bar>dot n ref\<bar> > 0.99 then Vector3 0 0 1 else ref)"

text \<open>The reference projected onto the plane of the face, before and after \<open>normalize\<close>.\<close>

definition settleProjected :: "Vector3 \<Rightarrow> Vector3" where
  "settleProjected n = addScaledVector (settleRef n) n (- dot (settleRef n) n)"

definition settleRefUp :: "Vector3 \<Rightarrow> Vector3" where
  "settleRefUp n = normalize (settleProjected n)"

text \<open>
  The loop over the vertices of the face: the direction to the vertex that is most
  aligned with \<open>refUp\<close>. \<open>bestDot\<close> starts at \<open>-Infinity\<close>, which is \<open>None\<close> here.
\<close>

fun snapLoop :: "Vector3 \<Rightarrow> Vector3 \<Rightarrow> Vector3 list \<Rightarrow> real option \<times> Vector3 \<Rightarrow> real option \<times> Vector3" where
  "snapLoop c refUp [] st = st"
| "snapLoop c refUp (v # vs) (bestDot, faceUp) =
     (let dir = normalize (subVectors v c);
          d = dot dir refUp
      in if (case bestDot of None \<Rightarrow> True | Some b \<Rightarrow> d > b)
         then snapLoop c refUp vs (Some d, dir)
         else snapLoop c refUp vs (bestDot, faceUp))"

definition faceUpOf :: "Face \<Rightarrow> int \<Rightarrow> Vector3 \<Rightarrow> Vector3 \<Rightarrow> Vector3" where
  "faceUpOf face sides n refUp =
     (if sides = 10 then
        let H = 1.2;
            pole = (if vy (centroid face) > 0 then Vector3 0 H 0 else Vector3 0 (- H) 0);
            toPole = subVectors pole (centroid face);
            toPole' = normalize (addScaledVector toPole n (- dot toPole n))
        in negate toPole'
      else if sides \<noteq> 6 \<and> length (verts face) \<ge> 3 then
        snd (snapLoop (centroid face) refUp (verts face) (None, refUp))
      else refUp)"

definition settleFaceUp :: "Face \<Rightarrow> int \<Rightarrow> Vector3" where
  "settleFaceUp face sides =
     (let n = normalize (normal face);
          refUp = settleRefUp n
      in faceUpOf face sides n refUp)"

text \<open>The cross product \<open>faceUp \<times> n\<close> from which the x axis of the basis is made.\<close>

definition settleCross :: "Face \<Rightarrow> int \<Rightarrow> Vector3" where
  "settleCross face sides = crossVectors (settleFaceUp face sides) (normalize (normal face))"

text \<open>
  The quaternion is built by three.js from the basis:
  \<open>new Quaternion().setFromRotationMatrix(new Matrix4().makeBasis(xAxis, faceUp, n)).conjugate()\<close>.
  That construction is the parameter \<open>fromBasis\<close>.
\<close>

definition faceSettleQuat :: "(Vector3 \<Rightarrow> Vector3 \<Rightarrow> Vector3 \<Rightarrow> 'q) \<Rightarrow> Face \<Rightarrow> int \<Rightarrow> 'q" where
  "faceSettleQuat fromBasis face sides =
     (let n = normalize (normal face);
          faceUp = settleFaceUp face sides;
          xAxis = normalize (settleCross face sides)
      in fromBasis xAxis faceUp n)"

section \<open>The geometry of the ten-sided die\<close>

text \<open>
  \<open>createD10Geometry\<close> fills the position attribute with 20 triangles, three vertices
  each; the model is the list of these 60 vertices. (The attribute stores them as 32-bit
  floats; here they are the real numbers the formulas denote.)
\<close>

definition d10RingHeight :: "real \<Rightarrow> real" where
  "d10RingHeight radius = (let H = radius in H * (1 - cos (pi / 5)) / (1 + cos (pi / 5)))"

definition d10Upper :: "real \<Rightarrow> Vector3 list" where
  "d10Upper radius =
     (let h = d10RingHeight radius; r = radius * 0.85
      in map (\<lambda>k. let aU = (real k * 2 * pi) / 5
                  in Vector3 (r * cos aU) h (r * sin aU)) [0..<5])"

definition d10Lower :: "real \<Rightarrow> Vector3 list" where
  "d10Lower radius =
     (let h = d10RingHeight radius; r = radius * 0.85
      in map (\<lambda>k. let aU = (real k * 2 * pi) / 5; aL = aU + pi / 5
                  in Vector3 (r * cos aL) (- h) (r * sin aL)) [0..<5])"

definition createD10Geometry :: "real \<Rightarrow> Vector3 list" where
  "createD10Geometry radius =
     (let H = radius;
          top = Vector3 0 H 0;
          bot = Vector3 0 (- H) 0;
          upper = d10Upper radius;
          lower = d10Lower radius
      in concat (map (\<lambda>k. let nk = (k + 1) mod 5
                          in [top, lower ! k, upper ! k,
                              top, upper ! nk, lower ! k,
                              bot, lower ! k, upper ! nk,
                              bot, upper ! nk, lower ! nk]) [0..<5]))"

text \<open>
  The normal of triangle \<open>t\<close> of a vertex list, as \<open>computeFaces\<close> takes it before
  normalising: \<open>(b - a) \<times> (c - a)\<close>.
\<close>

definition triNormal :: "Vector3 list \<Rightarrow> nat \<Rightarrow> Vector3" where
  "triNormal pos t =
     (let a = pos ! (t * 3); b = pos ! (t * 3 + 1); c = pos ! (t * 3 + 2)
      in crossVectors (subVectors b a) (subVectors c a))"

text \<open>The twelve vertices that the loop emits for \<open>k\<close>.\<close>

definition d10Block :: "real \<Rightarrow> nat \<Rightarrow> Vector3 list" where
  "d10Block radius k =
     (let top = Vector3 0 radius 0; bot = Vector3 0 (- radius) 0;
          upper = d10Upper radius; lower = d10Lower radius; nk = (k + 1) mod 5
      in [top, lower ! k, upper ! k, top, upper ! nk, lower ! k,
          bot, lower ! k, upper ! nk, bot, upper ! nk, lower ! nk])"

section \<open>The settle orientation on the object store\<close>

text \<open>
  The methods of a three.js \<open>Vector3\<close> write into the object they are called on. To say
  what \<open>settleQuat\<close> leaves unchanged, the vectors live in a store, a list indexed by
  address; a face holds the addresses of its centroid, its normal and its vertices.
  \<open>new Vector3(...)\<close> and \<open>clone()\<close> allocate at the end of the store.
\<close>

type_synonym store = "Vector3 list"

record FaceRef =
  centroidAt :: nat
  normalAt :: nat
  vertsAt :: "nat list"

definition faceAt :: "store \<Rightarrow> FaceRef \<Rightarrow> Face" where
  "faceAt h f = \<lparr>centroid = h ! centroidAt f, normal = h ! normalAt f,
                 verts = map (\<lambda>a. h ! a) (vertsAt f)\<rparr>"

definition newVector3 :: "Vector3 \<Rightarrow> store \<Rightarrow> nat \<times> store" where
  "newVector3 v h = (length h, h @ [v])"

definition clone :: "nat \<Rightarrow> store \<Rightarrow> nat \<times> store" where
  "clone a h = newVector3 (h ! a) h"

definition normalizeAt :: "nat \<Rightarrow> store \<Rightarrow> store" where
  "normalizeAt a h = h[a := normalize (h ! a)]"

definition addScaledVectorAt :: "nat \<Rightarrow> nat \<Rightarrow> real \<Rightarrow> store \<Rightarrow> store" where
  "addScaledVectorAt a v s h = h[a := addScaledVector (h ! a) (h ! v) s]"

definition subVectorsAt :: "nat \<Rightarrow> nat \<Rightarrow> nat \<Rightarrow> store \<Rightarrow> store" where
  "subVectorsAt a b c h = h[a := subVectors (h ! b) (h ! c)]"

definition crossVectorsAt :: "nat \<Rightarrow> nat \<Rightarrow> nat \<Rightarrow> store \<Rightarrow> store" where
  "crossVectorsAt a b c h = h[a := crossVectors (h ! b) (h ! c)]"

definition negateAt :: "nat \<Rightarrow> store \<Rightarrow> store" where
  "negateAt a h = h[a := negate (h ! a)]"

text \<open>The loop over the vertices: each step allocates \<open>dir\<close>.\<close>

fun snapLoopAt ::
  "nat \<Rightarrow> nat \<Rightarrow> nat list \<Rightarrow> real option \<times> nat \<Rightarrow> store \<Rightarrow> (real option \<times> nat) \<times> store" where
  "snapLoopAt c refUp [] st h = (st, h)"
| "snapLoopAt c refUp (v # vs) (bestDot, faceUp) h =
     (let (dir, h1) = newVector3 (Vector3 0 0 0) h;
          h2 = normalizeAt dir (subVectorsAt dir v c h1);
          d = dot (h2 ! dir) (h2 ! refUp)
      in if (case bestDot of None \<Rightarrow> True | Some b \<Rightarrow> d > b)
         then snapLoopAt c refUp vs (Some d, dir) h2
         else snapLoopAt c refUp vs (bestDot, faceUp) h2)"

text \<open>
  \<open>faceSettleQuat\<close> statement by statement, in the stages that the value-level
  definitions above name: \<open>n\<close>, \<open>ref\<close>, \<open>refUp\<close>, \<open>faceUp\<close>, and the basis. Each
  stage returns the address of its vector and the store it leaves behind.
\<close>

definition settleNormalAt :: "FaceRef \<Rightarrow> store \<Rightarrow> nat \<times> store" where
  "settleNormalAt face h = (let (n, h1) = clone (normalAt face) h in (n, normalizeAt n h1))"

definition settleRefAt :: "nat \<Rightarrow> store \<Rightarrow> nat \<times> store" where
  "settleRefAt n h =
     (let (ref, h1) = newVector3 (Vector3 0 1 0) h
      in if \<bar>dot (h1 ! n) (h1 ! ref)\<bar> > 0.99 then newVector3 (Vector3 0 0 1) h1 else (ref, h1))"

definition settleRefUpAt :: "nat \<Rightarrow> nat \<Rightarrow> store \<Rightarrow> nat \<times> store" where
  "settleRefUpAt n ref h =
     (let (refUp, h1) = clone ref h
      in (refUp, normalizeAt refUp (addScaledVectorAt refUp n (- dot (h1 ! ref) (h1 ! n)) h1)))"

definition settleFaceUpAt :: "FaceRef \<Rightarrow> int \<Rightarrow> nat \<Rightarrow> nat \<Rightarrow> store \<Rightarrow> nat \<times> store" where
  "settleFaceUpAt face sides n refUp h =
     (if sides = 10 then
        let H = 1.2;
            (pole, ha) = (if vy (h ! centroidAt face) > 0
                          then newVector3 (Vector3 0 H 0) h
                          else newVector3 (Vector3 0 (- H) 0) h);
            (toPole, hb) = newVector3 (Vector3 0 0 0) ha;
            hc = subVectorsAt toPole pole (centroidAt face) hb;
            hd = normalizeAt toPole (addScaledVectorAt toPole n (- dot (hc ! toPole) (hc ! n)) hc)
        in (toPole, negateAt toPole hd)
      else if sides \<noteq> 6 \<and> length (vertsAt face) \<ge> 3 then
        let (st, hl) = snapLoopAt (centroidAt face) refUp (vertsAt face) (None, refUp) h
        in (snd st, hl)
      else (refUp, h))"

definition faceSettleQuatAt ::
  "(Vector3 \<Rightarrow> Vector3 \<Rightarrow> Vector3 \<Rightarrow> 'q) \<Rightarrow> FaceRef \<Rightarrow> int \<Rightarrow> store \<Rightarrow> 'q \<times> store" where
  "faceSettleQuatAt fromBasis face sides h0 =
     (let (n, h1) = settleNormalAt face h0;
          (ref, h2) = settleRefAt n h1;
          (refUp, h3) = settleRefUpAt n ref h2;
          (faceUp, h4) = settleFaceUpAt face sides n refUp h3;
          (xAxis, h5) = newVector3 (Vector3 0 0 0) h4;
          h6 = normalizeAt xAxis (crossVectorsAt xAxis faceUp n h5)
      in (fromBasis (h6 ! xAxis) (h6 ! faceUp) (h6 ! n), h6))"

text \<open>One store extends another: it is at least as long and agrees with it on its addresses.\<close>

definition extends :: "store \<Rightarrow> store \<Rightarrow> bool" where
  "extends h h' \<longleftrightarrow> length h \<le> length h' \<and> take (length h) h' = h"

text \<open>The addresses of a face are addresses of the store.\<close>

definition validFace :: "store \<Rightarrow> FaceRef \<Rightarrow> bool" where
  "validFace h f \<longleftrightarrow>
     centroidAt f < length h \<and> normalAt f < length h \<and> list_all (\<lambda>a. a < length h) (vertsAt f)"

text \<open>
  \<open>mesh.userData\<close>: an unlabelled die has none of the three fields. The keys and
  values of \<open>numberToFace\<close> are JavaScript numbers.
\<close>

record UserData =
  ud_faces :: "FaceRef list option"
  ud_faceNumbers :: "int list option"
  ud_numberToFace :: "(real \<rightharpoonup> real) option"

datatype error = TypeError

text \<open>
  \<open>settleQuat\<close>. After the range check \<open>faces[fi]\<close> is a face when \<open>fi\<close> is an integer;
  otherwise it is \<open>undefined\<close>, and \<open>faceSettleQuat\<close> raises a \<open>TypeError\<close> on reading
  its \<open>normal\<close>. \<open>None\<close> is the result \<open>null\<close>.
\<close>

definition settleQuat ::
  "(Vector3 \<Rightarrow> Vector3 \<Rightarrow> Vector3 \<Rightarrow> 'q) \<Rightarrow> UserData \<Rightarrow> real \<Rightarrow> int \<Rightarrow> store \<Rightarrow>
     error + ('q option \<times> store)" where
  "settleQuat fromBasis mesh result sides h =
     (case ud_faces mesh of
        None \<Rightarrow> Inr (None, h)
      | Some faces \<Rightarrow>
          (case ud_numberToFace mesh of
             None \<Rightarrow> Inr (None, h)
           | Some ntf \<Rightarrow>
               (case ntf result of
                  None \<Rightarrow> Inr (None, h)
                | Some fi \<Rightarrow>
                    if fi < 0 \<or> fi \<ge> real (length faces) then Inr (None, h)
                    else if of_int \<lfloor>fi\<rfloor> \<noteq> fi then Inl TypeError
                    else let (q, h') = faceSettleQuatAt fromBasis (faces ! nat \<lfloor>fi\<rfloor>) sides h
                         in Inr (Some q, h'))))"

text \<open>
  \<open>buildDieMesh\<close> fills the table with
  \<open>faceNumbers.forEach((num, idx) => { numberToFace[num] = idx; })\<close>.
\<close>

fun tableLoop :: "int list \<Rightarrow> nat \<Rightarrow> (real \<rightharpoonup> real) \<Rightarrow> (real \<rightharpoonup> real)" where
  "tableLoop [] idx m = m"
| "tableLoop (num # nums) idx m = tableLoop nums (Suc idx) (m(real_of_int num \<mapsto> real idx))"

definition numberToFaceOf :: "int list \<Rightarrow> (real \<rightharpoonup> real)" where
  "numberToFaceOf faceNumbers = tableLoop faceNumbers 0 Map.empty"

section \<open>Concrete face lists\<close>

definition mkFace :: "Vector3 \<Rightarrow> Vector3 \<Rightarrow> Face" where
  "mkFace c n = \<lparr>centroid = c, normal = n, verts = []\<rparr>"

text \<open>Six faces with the normals of a cube, in the order +x, -x, +y, -y, +z, -z.\<close>

definition cubeFaces :: "Face list" where
  "cubeFaces = map (\<lambda>v. mkFace v v)
     [Vector3 1 0 0, Vector3 (-1) 0 0, Vector3 0 1 0, Vector3 0 (-1) 0, Vector3 0 0 1, Vector3 0 0 (-1)]"

text \<open>Eight faces with the normal directions of an octahedron.\<close>

definition octaFaces :: "Face list" where
  "octaFaces = map (\<lambda>v. mkFace v v)
     [Vector3 (-0.6) (-0.6) (-0.6), Vector3 (-0.6) (-0.6) 0.6, Vector3 (-0.6) 0.6 (-0.6),
      Vector3 (-0.6) 0.6 0.6, Vector3 0.6 (-0.6) (-0.6), Vector3 0.6 (-0.6) 0.6,
      Vector3 0.6 0.6 (-0.6), Vector3 0.6 0.6 0.6]"

text \<open>Ten faces in five opposite pairs, one face of each pair above the other.\<close>

definition d10Faces :: "Face list" where
  "d10Faces =
     [mkFace (Vector3 (-1) (-1) 0) (Vector3 1 0 0),
      mkFace (Vector3 1 1 1) (Vector3 0 1 0),
      mkFace (Vector3 (-1) (-1) 2) (Vector3 0 0 1),
      mkFace (Vector3 1 1 0) (Vector3 (-1) 0 0),
      mkFace (Vector3 (-1) (-1) (-1)) (Vector3 0 (-1) 0),
      mkFace (Vector3 1 1 (-2)) (Vector3 0 0 (-1)),
      mkFace (Vector3 1 1 3) (Vector3 0.6 0.8 0),
      mkFace (Vector3 (-1) (-1) 1) (Vector3 0 0.6 0.8),
      mkFace (Vector3 (-1) (-1) (-3)) (Vector3 (-0.6) (-0.8) 0),
      mkFace (Vector3 1 1 (-1)) (Vector3 0 (-0.6) (-0.8))]"

text \<open>A face that looks along +z, and a face whose centroid is the upper pole of the ten-sided die.\<close>

definition frontFace :: "Face" where
  "frontFace = mkFace (Vector3 0 0 0.85) (Vector3 0 0 1)"

definition poleFace :: "Face" where
  "poleFace = mkFace (Vector3 0 1.2 0) (Vector3 0 0 1)"

text \<open>
  A face of the ten-sided kind whose centroid is off the pole; a triangle in the plane
  z = 1 around its centroid; and a face whose three vertices all sit on the normal
  through the centroid.
\<close>

definition kiteFace :: "Face" where
  "kiteFace = mkFace (Vector3 1 0.5 0) (Vector3 1 0 0)"

definition triFace :: "Face" where
  "triFace = \<lparr>centroid = Vector3 0 0 1, normal = Vector3 0 0 1,
               verts = [Vector3 1 0 1, Vector3 0 1 1, Vector3 (- 1) (- 1) 1]\<rparr>"

definition spikeFace :: "Face" where
  "spikeFace = \<lparr>centroid = Vector3 0 0 1, normal = Vector3 0 0 1,
                 verts = [Vector3 0 0 2, Vector3 0 0 2, Vector3 0 0 2]\<rparr>"

text \<open>
  A store with one face that looks along +z, the user data of a die labelled with that
  face, and the user data of an unlabelled die. \<open>basisTriple\<close> stands in for the
  quaternion construction and returns the basis itself.
\<close>

definition basisTriple :: "Vector3 \<Rightarrow> Vector3 \<Rightarrow> Vector3 \<Rightarrow> Vector3 \<times> Vector3 \<times> Vector3" where
  "basisTriple x y z = (x, y, z)"

definition frontStore :: store where
  "frontStore = [Vector3 0 0 2, Vector3 0 0 1]"

definition frontRef :: FaceRef where
  "frontRef = \<lparr>centroidAt = 0, normalAt = 1, vertsAt = []\<rparr>"

definition labelledData :: UserData where
  "labelledData = \<lparr>ud_faces = Some [frontRef], ud_faceNumbers = Some [1],
                    ud_numberToFace = Some (numberToFaceOf [1])\<rparr>"

definition unlabelledData :: UserData where
  "unlabelledData = \<lparr>ud_faces = None, ud_faceNumbers = None, ud_numberToFace = None\<rparr>"

section \<open>The six-sided die\<close>

text \<open>
  C4: for every face list (of length 6 or any other), \<open>computeFaceNumbers faces 6\<close> is the
  fixed sequence 1, 6, 2, 5, 3, 4, whatever the geometry of the faces, and the entries at
  positions (0,1), (2,3) and (4,5) of that sequence each sum to 7.
\<close>

theorem computeFaceNumbers_d6:
  "computeFaceNumbers faces 6 = [1, 6, 2, 5, 3, 4] \<and>
   computeFaceNumbers faces 6 ! 0 + computeFaceNumbers faces 6 ! 1 = 7 \<and>
   computeFaceNumbers faces 6 ! 2 + computeFaceNumbers faces 6 ! 3 = 7 \<and>
   computeFaceNumbers faces 6 ! 4 + computeFaceNumbers faces 6 ! 5 = 7"
  by (simp add: computeFaceNumbers_def D6_NUMBERS_def)

theorem computeFaceNumbers_d6_witness:
  "length cubeFaces = 6 \<and> computeFaceNumbers cubeFaces 6 = [1, 6, 2, 5, 3, 4]"
  using computeFaceNumbers_d6 [of cubeFaces] by (simp add: cubeFaces_def)

section \<open>The pairing loop\<close>

lemma pairMembers_Nil [simp]: "pairMembers [] = []"
  by (simp add: pairMembers_def)

lemma pairMembers_append [simp]: "pairMembers (ps @ qs) = pairMembers ps @ pairMembers qs"
  by (simp add: pairMembers_def)

lemma pairMembers_Cons:
  "pairMembers (p # ps) = (if snd p \<ge> 0 then [fst p, nat (snd p)] else [fst p]) @ pairMembers ps"
  by (simp add: pairMembers_def)

lemma findOpposite_Some:
  "findOpposite faces used i js = Some j \<Longrightarrow> j \<in> set js \<and> j \<notin> used \<and> opposite faces i j"
  by (induction js) (auto split: if_splits)

lemma findOpposite_None:
  "findOpposite faces used i js = None \<Longrightarrow> j \<in> set js \<Longrightarrow> j \<in> used \<or> \<not> opposite faces i j"
  by (induction js) (auto split: if_splits)

lemma pairInv_single:
  assumes "pairInv faces pairs used" "i \<notin> used" "i < length faces"
  shows "pairInv faces (pairs @ [(i, - 1)]) (insert i used)"
  using assms by (auto simp: pairInv_def pairMembers_Cons)

lemma pairInv_pair:
  assumes "pairInv faces pairs used" "i \<notin> used" "i < length faces"
    and "j \<notin> used" "j < length faces" "i < j" "opposite faces i j"
  shows "pairInv faces (pairs @ [(i, int j)]) (insert j (insert i used))"
  using assms by (auto simp: pairInv_def pairMembers_Cons)

lemma pairLoop_inv:
  assumes "pairInv faces pairs used" "set is \<subseteq> {..<length faces}"
    and "pairLoop faces is (pairs, used) = (pairs', used')"
  shows "pairInv faces pairs' used' \<and> set is \<union> used \<subseteq> used'"
  using assms
proof (induction "is" arbitrary: pairs used)
  case Nil
  then show ?case by simp
next
  case (Cons i "is")
  show ?case
  proof (cases "i \<in> used")
    case True
    with Cons.prems have "pairLoop faces is (pairs, used) = (pairs', used')" by simp
    with Cons.IH [OF Cons.prems(1)] Cons.prems(2) True show ?thesis by auto
  next
    case False
    have iN: "i < length faces" using Cons.prems(2) by simp
    show ?thesis
    proof (cases "findOpposite faces used i [Suc i..<length faces]")
      case None
      with False Cons.prems
      have run: "pairLoop faces is (pairs @ [(i, - 1)], insert i used) = (pairs', used')" by simp
      from Cons.IH [OF pairInv_single [OF Cons.prems(1) False iN] _ run] Cons.prems(2)
      show ?thesis by auto
    next
      case (Some j)
      with False Cons.prems
      have run: "pairLoop faces is (pairs @ [(i, int j)], insert j (insert i used)) = (pairs', used')"
        by simp
      from findOpposite_Some [OF Some]
      have j: "j \<notin> used" "j < length faces" "i < j" "opposite faces i j" by auto
      from Cons.IH [OF pairInv_pair [OF Cons.prems(1) False iN j] _ run] Cons.prems(2)
      show ?thesis by auto
    qed
  qed
qed

lemma pairInv_findPairs:
  "pairInv faces (findPairs faces) {..<length faces}"
proof -
  obtain pairs' used' where run: "pairLoop faces [0..<length faces] ([], {}) = (pairs', used')"
    by (cases "pairLoop faces [0..<length faces] ([], {})") auto
  have init: "pairInv faces [] {}" by (simp add: pairInv_def)
  have rng: "set [0..<length faces] \<subseteq> {..<length faces}" by auto
  from pairLoop_inv [OF init rng run]
  have inv: "pairInv faces pairs' used'" and sub: "{..<length faces} \<subseteq> used'" by auto
  from inv have "used' \<subseteq> {..<length faces}" unfolding pairInv_def by blast
  with sub have "used' = {..<length faces}" by auto
  with inv run show ?thesis by (simp add: findPairs_def)
qed

lemma assignLoop_length [simp]:
  "length (assignLoop num target ps k numbers) = length numbers"
  by (induction ps arbitrary: k numbers) (simp_all add: Let_def)

lemma assignLoop_other:
  "i \<notin> set (pairMembers ps) \<Longrightarrow> assignLoop num target ps k numbers ! i = numbers ! i"
proof (induction ps arbitrary: k numbers)
  case Nil
  then show ?case by simp
next
  case (Cons p ps)
  then show ?case by (auto simp: pairMembers_Cons Let_def split: if_splits)
qed

lemma assignLoop_first:
  assumes "distinct (pairMembers ps)" "set (pairMembers ps) \<subseteq> {..<length numbers}" "j < length ps"
  shows "assignLoop num target ps k numbers ! fst (ps ! j) = num (k + j)"
  using assms
proof (induction ps arbitrary: k numbers j)
  case Nil
  then show ?case by simp
next
  case (Cons p ps)
  show ?case
  proof (cases j)
    case 0
    from Cons.prems have "fst p \<notin> set (pairMembers ps)" "fst p < length numbers"
      "snd p \<ge> 0 \<Longrightarrow> fst p \<noteq> nat (snd p)"
      by (auto simp: pairMembers_Cons split: if_splits)
    with 0 show ?thesis by (auto simp: Let_def assignLoop_other nth_list_update)
  next
    case (Suc j')
    from Cons.prems Suc have "distinct (pairMembers ps)" "j' < length ps"
      by (auto simp: pairMembers_Cons split: if_splits)
    moreover from Cons.prems have "set (pairMembers ps) \<subseteq> {..<length numbers}"
      by (auto simp: pairMembers_Cons split: if_splits)
    ultimately show ?thesis using Suc Cons.IH [of _ j' "Suc k"] by (simp add: Let_def)
  qed
qed

lemma assignLoop_second:
  assumes "distinct (pairMembers ps)" "set (pairMembers ps) \<subseteq> {..<length numbers}" "j < length ps"
    and "snd (ps ! j) \<ge> 0"
  shows "assignLoop num target ps k numbers ! nat (snd (ps ! j)) = target - num (k + j)"
  using assms
proof (induction ps arbitrary: k numbers j)
  case Nil
  then show ?case by simp
next
  case (Cons p ps)
  show ?case
  proof (cases j)
    case 0
    from Cons.prems 0 have "snd p \<ge> 0" by simp
    with Cons.prems have "nat (snd p) \<notin> set (pairMembers ps)" "nat (snd p) < length numbers"
      by (auto simp: pairMembers_Cons split: if_splits)
    with 0 \<open>snd p \<ge> 0\<close> show ?thesis by (simp add: Let_def assignLoop_other)
  next
    case (Suc j')
    from Cons.prems Suc have "distinct (pairMembers ps)" "j' < length ps" "snd (ps ! j') \<ge> 0"
      by (auto simp: pairMembers_Cons split: if_splits)
    moreover from Cons.prems have "set (pairMembers ps) \<subseteq> {..<length numbers}"
      by (auto simp: pairMembers_Cons split: if_splits)
    ultimately show ?thesis using Suc Cons.IH [of _ j' "Suc k"] by (simp add: Let_def)
  qed
qed

text \<open>Every member of the pair list sits in some entry, as its first or second component.\<close>

lemma pairMembers_entry:
  "i \<in> set (pairMembers ps) \<Longrightarrow>
   \<exists>k < length ps. i = fst (ps ! k) \<or> (snd (ps ! k) \<ge> 0 \<and> i = nat (snd (ps ! k)))"
proof (induction ps)
  case Nil
  then show ?case by simp
next
  case (Cons p ps)
  show ?case
  proof (cases "i \<in> set (pairMembers ps)")
    case True
    from Cons.IH [OF True] obtain k where "k < length ps"
      "i = fst (ps ! k) \<or> (snd (ps ! k) \<ge> 0 \<and> i = nat (snd (ps ! k)))" by blast
    then have "Suc k < length (p # ps) \<and>
      (i = fst ((p # ps) ! Suc k) \<or> (snd ((p # ps) ! Suc k) \<ge> 0 \<and> i = nat (snd ((p # ps) ! Suc k))))"
      by simp
    then show ?thesis by blast
  next
    case False
    with Cons.prems have "i = fst p \<or> (snd p \<ge> 0 \<and> i = nat (snd p))"
      by (auto simp: pairMembers_Cons split: if_splits)
    then have "0 < length (p # ps) \<and>
      (i = fst ((p # ps) ! 0) \<or> (snd ((p # ps) ! 0) \<ge> 0 \<and> i = nat (snd ((p # ps) ! 0))))"
      by simp
    then show ?thesis by blast
  qed
qed

lemma dot_commute: "dot a b = dot b a"
  by (simp add: dot_def mult.commute)

lemma dot_self_nonneg: "0 \<le> dot a a"
  by (simp add: dot_def)

lemma opposite_sym: "opposite faces i j \<Longrightarrow> opposite faces j i"
  by (simp add: opposite_def dot_commute)

lemma opposite_irrefl: "\<not> opposite faces i i"
proof
  assume "opposite faces i i"
  then have "dot (normal (faces ! i)) (normal (faces ! i)) < - 0.99" by (simp add: opposite_def)
  with dot_self_nonneg [of "normal (faces ! i)"] show False by simp
qed

lemma length_filter_one:
  assumes "distinct xs"
  shows "length (filter P xs) = 1 \<longleftrightarrow> (\<exists>!x. x \<in> set xs \<and> P x)"
proof -
  have "length (filter P xs) = card {x \<in> set xs. P x}"
    using assms by (simp add: distinct_length_filter Int_def conj_commute)
  also have "\<dots> = 1 \<longleftrightarrow> (\<exists>x. {x \<in> set xs. P x} = {x})"
    by (simp add: card_1_singleton_iff)
  also have "\<dots> \<longleftrightarrow> (\<exists>!x. x \<in> set xs \<and> P x)"
    by (simp add: set_eq_iff) metis
  finally show ?thesis .
qed

lemma onePartner_iff:
  "onePartner faces \<longleftrightarrow> (\<forall>i < length faces. \<exists>!j. j < length faces \<and> opposite faces i j)"
proof -
  have "\<And>i. length (filter (opposite faces i) [0..<length faces]) = 1 \<longleftrightarrow>
      (\<exists>!j. j < length faces \<and> opposite faces i j)"
    using length_filter_one [of "[0..<length faces]"] by simp
  then have "onePartner faces \<longleftrightarrow>
      (\<forall>i \<in> {0..<length faces}. \<exists>!j. j < length faces \<and> opposite faces i j)"
    by (simp add: onePartner_def list_all_iff del: One_nat_def)
  also have "\<dots> \<longleftrightarrow> (\<forall>i < length faces. \<exists>!j. j < length faces \<and> opposite faces i j)"
    by (simp add: Ball_def)
  finally show ?thesis .
qed

lemma onePartner_unique:
  assumes "onePartner faces" "i < length faces"
    and "j < length faces" "opposite faces i j" "j' < length faces" "opposite faces i j'"
  shows "j = j'"
  using assms unfolding onePartner_iff by blast

lemma onePartner_ex:
  assumes "onePartner faces" "i < length faces"
  shows "\<exists>j < length faces. opposite faces i j"
  using assms unfolding onePartner_iff by blast

lemma pairMembers_fst: "p \<in> set ps \<Longrightarrow> fst p \<in> set (pairMembers ps)"
  by (induction ps) (auto simp: pairMembers_Cons)

lemma pairMembers_snd: "p \<in> set ps \<Longrightarrow> snd p \<ge> 0 \<Longrightarrow> nat (snd p) \<in> set (pairMembers ps)"
  by (induction ps) (auto simp: pairMembers_Cons)

lemma goodPairs_partner:
  assumes op: "onePartner faces" and good: "goodPairs faces ps"
    and a: "a \<in> set (pairMembers ps)" and b: "b < length faces" and ab: "opposite faces a b"
  shows "\<exists>k < length ps. (a = fst (ps ! k) \<and> b = nat (snd (ps ! k))) \<or>
                         (b = fst (ps ! k) \<and> a = nat (snd (ps ! k)))"
proof -
  from pairMembers_entry [OF a] obtain k where k: "k < length ps"
    and ak: "a = fst (ps ! k) \<or> a = nat (snd (ps ! k))" by blast
  let ?p = "ps ! k"
  from k have pin: "?p \<in> set ps" by simp
  with good have nn: "0 \<le> snd ?p" and opp: "opposite faces (fst ?p) (nat (snd ?p))"
    by (auto simp: goodPairs_def)
  from good pairMembers_fst [OF pin] pairMembers_snd [OF pin nn]
  have rng: "fst ?p < length faces" "nat (snd ?p) < length faces"
    by (auto simp: goodPairs_def)
  from ak show ?thesis
  proof
    assume e: "a = fst ?p"
    with onePartner_unique [OF op _ b _ rng(2)] ab opp rng have "b = nat (snd ?p)" by simp
    with e k show ?thesis by blast
  next
    assume e: "a = nat (snd ?p)"
    from opposite_sym [OF opp] e have "opposite faces a (fst ?p)" by simp
    with onePartner_unique [OF op _ b ab rng(1)] e rng have "b = fst ?p" by simp
    with e k show ?thesis by blast
  qed
qed

lemma pairLoop_paired:
  assumes "onePartner faces" "pairInv faces pairs used" "\<forall>p \<in> set pairs. 0 \<le> snd p"
    and "sorted_wrt (<) is" "set is \<subseteq> {..<length faces}"
    and "\<forall>k < length faces. k \<in> used \<or> k \<in> set is"
    and "pairLoop faces is (pairs, used) = (pairs', used')"
  shows "\<forall>p \<in> set pairs'. 0 \<le> snd p"
  using assms(2-)
proof (induction "is" arbitrary: pairs used)
  case Nil
  then show ?case by simp
next
  case (Cons i "is")
  have sorted: "sorted_wrt (<) is" and below: "\<forall>k \<in> set is. i < k"
    using Cons.prems(3) by auto
  have rng: "set is \<subseteq> {..<length faces}" and iN: "i < length faces"
    using Cons.prems(4) by auto
  show ?case
  proof (cases "i \<in> used")
    case True
    with Cons.prems have run: "pairLoop faces is (pairs, used) = (pairs', used')" by simp
    from True Cons.prems(5) have cover: "\<forall>k < length faces. k \<in> used \<or> k \<in> set is" by auto
    from Cons.IH [OF Cons.prems(1,2) sorted rng cover run] show ?thesis .
  next
    case False
    have good: "goodPairs faces pairs"
      using Cons.prems(1,2) unfolding pairInv_def goodPairs_def by fastforce
    have used: "used = set (pairMembers pairs)"
      using Cons.prems(1) by (simp add: pairInv_def)
    from onePartner_ex [OF assms(1) iN] obtain q where q: "q < length faces" "opposite faces i q"
      by blast
    have qfree: "q \<notin> used"
    proof
      assume "q \<in> used"
      with used have "q \<in> set (pairMembers pairs)" by simp
      from goodPairs_partner [OF assms(1) good this iN opposite_sym [OF q(2)]]
      obtain k where "k < length pairs" "i = nat (snd (pairs ! k)) \<or> i = fst (pairs ! k)" by blast
      moreover from this(1) have pin: "pairs ! k \<in> set pairs" by simp
      moreover from Cons.prems(2) pin have "0 \<le> snd (pairs ! k)" by blast
      ultimately have "i \<in> set (pairMembers pairs)"
        using pairMembers_fst [OF pin] pairMembers_snd [OF pin] by auto
      with used False show False by simp
    qed
    from q opposite_irrefl have "q \<noteq> i" by blast
    with qfree Cons.prems(5) q(1) have "q \<in> set is" by auto
    with below q(1) have "q \<in> set [Suc i..<length faces]" by auto
    with qfree q(2) findOpposite_None [of faces used i "[Suc i..<length faces]" q]
    obtain j where Some: "findOpposite faces used i [Suc i..<length faces] = Some j"
      by (cases "findOpposite faces used i [Suc i..<length faces]") auto
    with False Cons.prems
    have run: "pairLoop faces is (pairs @ [(i, int j)], insert j (insert i used)) = (pairs', used')"
      by simp
    from findOpposite_Some [OF Some]
    have j: "j \<notin> used" "j < length faces" "i < j" "opposite faces i j" by auto
    have cover: "\<forall>k < length faces. k \<in> insert j (insert i used) \<or> k \<in> set is"
      using Cons.prems(5) by auto
    have nn: "\<forall>p \<in> set (pairs @ [(i, int j)]). 0 \<le> snd p"
      using Cons.prems(2) by auto
    from Cons.IH [OF pairInv_pair [OF Cons.prems(1) False iN j] nn sorted rng cover run]
    show ?thesis .
  qed
qed

lemma findPairs_good:
  assumes "onePartner faces"
  shows "goodPairs faces (findPairs faces)"
proof -
  obtain pairs' used' where run: "pairLoop faces [0..<length faces] ([], {}) = (pairs', used')"
    by (cases "pairLoop faces [0..<length faces] ([], {})") auto
  have init: "pairInv faces [] {}" by (simp add: pairInv_def)
  have "\<forall>p \<in> set pairs'. 0 \<le> snd p"
    by (rule pairLoop_paired [OF assms init _ _ _ _ run]) auto
  moreover from run have "findPairs faces = pairs'" by (simp add: findPairs_def)
  ultimately show ?thesis
    using pairInv_findPairs [of faces] unfolding pairInv_def goodPairs_def by fastforce
qed

lemma length_pairMembers:
  "\<forall>p \<in> set ps. 0 \<le> snd p \<Longrightarrow> length (pairMembers ps) = 2 * length ps"
  by (induction ps) (auto simp: pairMembers_Cons)

lemma goodPairs_length:
  assumes "goodPairs faces ps" "set (pairMembers ps) = {..<length faces}"
  shows "2 * length ps = length faces"
proof -
  from assms(1) have "length (pairMembers ps) = 2 * length ps"
    by (intro length_pairMembers) (simp add: goodPairs_def)
  moreover from assms have "length (pairMembers ps) = card {..<length faces}"
    using distinct_card [of "pairMembers ps"] by (simp add: goodPairs_def)
  ultimately show ?thesis by simp
qed

lemma assign_good_sum:
  assumes op: "onePartner faces" and good: "goodPairs faces ps"
    and cover: "set (pairMembers ps) = {..<length faces}"
    and i: "i < length faces" and j: "j < length faces" and ij: "opposite faces i j"
  shows "assignLoop num target ps 0 (replicate (length faces) 0) ! i +
         assignLoop num target ps 0 (replicate (length faces) 0) ! j = target"
proof -
  let ?nums = "assignLoop num target ps 0 (replicate (length faces) 0)"
  have d: "distinct (pairMembers ps)"
    and r: "set (pairMembers ps) \<subseteq> {..<length (replicate (length faces) (0::int))}"
    using good by (simp_all add: goodPairs_def)
  from i cover have "i \<in> set (pairMembers ps)" by simp
  from goodPairs_partner [OF op good this j ij] obtain k where k: "k < length ps"
    and e: "(i = fst (ps ! k) \<and> j = nat (snd (ps ! k))) \<or> (j = fst (ps ! k) \<and> i = nat (snd (ps ! k)))"
    by blast
  from k good have nn: "0 \<le> snd (ps ! k)" by (simp add: goodPairs_def)
  have "?nums ! fst (ps ! k) = num k"
    using assignLoop_first [OF d r k, of num target 0] by simp
  moreover have "?nums ! nat (snd (ps ! k)) = target - num k"
    using assignLoop_second [OF d r k nn, of num target 0] by simp
  ultimately show ?thesis using e by auto
qed

lemma assign_good_set:
  assumes good: "goodPairs faces ps" and cover: "set (pairMembers ps) = {..<length faces}"
  shows "set (assignLoop num target ps 0 (replicate (length faces) 0)) =
         num ` {..<length ps} \<union> (\<lambda>k. target - num k) ` {..<length ps}"
proof -
  let ?nums = "assignLoop num target ps 0 (replicate (length faces) 0)"
  have d: "distinct (pairMembers ps)"
    and r: "set (pairMembers ps) \<subseteq> {..<length (replicate (length faces) (0::int))}"
    using good by (simp_all add: goodPairs_def)
  have fst_val: "?nums ! fst (ps ! k) = num k" if "k < length ps" for k
    using assignLoop_first [OF d r that, of num target 0] by simp
  have snd_val: "?nums ! nat (snd (ps ! k)) = target - num k" if "k < length ps" for k
  proof -
    from that good have "0 \<le> snd (ps ! k)" by (simp add: goodPairs_def)
    from assignLoop_second [OF d r that this, of num target 0] show ?thesis by simp
  qed
  have rng: "fst (ps ! k) < length faces \<and> nat (snd (ps ! k)) < length faces" if "k < length ps" for k
  proof -
    from that have pin: "ps ! k \<in> set ps" by simp
    with good have "0 \<le> snd (ps ! k)" by (simp add: goodPairs_def)
    with pairMembers_fst [OF pin] pairMembers_snd [OF pin] cover show ?thesis by auto
  qed
  show ?thesis
  proof (intro set_eqI iffI)
    fix x assume "x \<in> set ?nums"
    then obtain i where i: "i < length faces" "x = ?nums ! i"
      by (auto simp: in_set_conv_nth)
    with cover have "i \<in> set (pairMembers ps)" by simp
    from pairMembers_entry [OF this] obtain k where k: "k < length ps"
      "i = fst (ps ! k) \<or> i = nat (snd (ps ! k))" by blast
    with i fst_val [OF k(1)] snd_val [OF k(1)] show "x \<in> num ` {..<length ps} \<union> (\<lambda>k. target - num k) ` {..<length ps}"
      by auto
  next
    fix x assume "x \<in> num ` {..<length ps} \<union> (\<lambda>k. target - num k) ` {..<length ps}"
    then obtain k where k: "k < length ps" "x = num k \<or> x = target - num k" by auto
    with fst_val [OF k(1)] snd_val [OF k(1)] rng [OF k(1)]
    have "\<exists>i < length ?nums. ?nums ! i = x" by auto
    then show "x \<in> set ?nums" by (simp add: in_set_conv_nth)
  qed
qed

lemma findPairs_cover: "set (pairMembers (findPairs faces)) = {..<length faces}"
  using pairInv_findPairs [of faces] by (simp add: pairInv_def)

lemma seq_numbers_set:
  fixes m :: nat
  shows "(\<lambda>k. int k + 1) ` {..<m} \<union> (\<lambda>k. (2 * int m + 1) - (int k + 1)) ` {..<m} = {1..2 * int m}"
proof (intro set_eqI iffI)
  fix x assume "x \<in> (\<lambda>k. int k + 1) ` {..<m} \<union> (\<lambda>k. (2 * int m + 1) - (int k + 1)) ` {..<m}"
  then show "x \<in> {1..2 * int m}" by auto
next
  fix x assume x: "x \<in> {1..2 * int m}"
  show "x \<in> (\<lambda>k. int k + 1) ` {..<m} \<union> (\<lambda>k. (2 * int m + 1) - (int k + 1)) ` {..<m}"
  proof (cases "x \<le> int m")
    case True
    with x have "nat (x - 1) < m" "x = int (nat (x - 1)) + 1" by auto
    then show ?thesis by blast
  next
    case False
    with x have "nat (2 * int m - x) < m" "x = (2 * int m + 1) - (int (nat (2 * int m - x)) + 1)" by auto
    then show ?thesis by blast
  qed
qed

lemma seq_numbers:
  assumes op: "onePartner faces" and sides: "sides = int (length faces)" "sides \<noteq> 4" "sides \<noteq> 6" "sides \<noteq> 10"
  shows "length (computeFaceNumbers faces sides) = length faces"
    and "set (computeFaceNumbers faces sides) = {1..sides}"
    and "distinct (computeFaceNumbers faces sides)"
    and "\<lbrakk>i < length faces; j < length faces; opposite faces i j\<rbrakk> \<Longrightarrow>
         computeFaceNumbers faces sides ! i + computeFaceNumbers faces sides ! j = sides + 1"
proof -
  let ?ps = "findPairs faces"
  let ?nums = "assignLoop (\<lambda>k. int k + 1) (sides + 1) ?ps 0 (replicate (length faces) 0)"
  have eq: "computeFaceNumbers faces sides = ?nums"
    using sides by (simp add: computeFaceNumbers_def Let_def)
  have good: "goodPairs faces ?ps" by (rule findPairs_good [OF op])
  have cover: "set (pairMembers ?ps) = {..<length faces}" by (rule findPairs_cover)
  from goodPairs_length [OF good cover] sides have m: "sides = 2 * int (length ?ps)" by simp
  show len: "length (computeFaceNumbers faces sides) = length faces" by (simp add: eq)
  have "set ?nums = {1..sides}"
    unfolding assign_good_set [OF good cover] m by (rule seq_numbers_set)
  then show set: "set (computeFaceNumbers faces sides) = {1..sides}" by (simp add: eq)
  have "card (set (computeFaceNumbers faces sides)) = length (computeFaceNumbers faces sides)"
    unfolding set len using sides by simp
  then show "distinct (computeFaceNumbers faces sides)" by (rule card_distinct)
  show "computeFaceNumbers faces sides ! i + computeFaceNumbers faces sides ! j = sides + 1"
    if "i < length faces" "j < length faces" "opposite faces i j"
    unfolding eq by (rule assign_good_sum [OF op good cover that])
qed

text \<open>
  C1: for a face list of a die with 8, 12 or 20 sides (as many faces as sides) in which
  every face has exactly one anti-parallel partner, \<open>computeFaceNumbers\<close> returns one
  number per face, the numbering is a bijection from the face indices onto 1..sides, and
  the numbers of two opposite faces add up to sides + 1.
\<close>

theorem computeFaceNumbers_opposite_sum:
  assumes "sides \<in> {8, 12, 20}" "int (length faces) = sides" "onePartner faces"
  shows "length (computeFaceNumbers faces sides) = length faces \<and>
         bij_betw (\<lambda>i. computeFaceNumbers faces sides ! i) {..<length faces} {1..sides} \<and>
         (\<forall>i < length faces. \<forall>j < length faces. opposite faces i j \<longrightarrow>
            computeFaceNumbers faces sides ! i + computeFaceNumbers faces sides ! j = sides + 1)"
proof -
  have s: "sides = int (length faces)" "sides \<noteq> 4" "sides \<noteq> 6" "sides \<noteq> 10"
    using assms(1,2) by auto
  note facts = seq_numbers [OF assms(3) s]
  have "bij_betw (\<lambda>i. computeFaceNumbers faces sides ! i) {..<length (computeFaceNumbers faces sides)}
          (set (computeFaceNumbers faces sides))"
    by (rule bij_betw_nth [OF facts(3)]) simp_all
  then have "bij_betw (\<lambda>i. computeFaceNumbers faces sides ! i) {..<length faces} {1..sides}"
    by (simp only: facts(1,2))
  with facts(1,4) show ?thesis by blast
qed

theorem computeFaceNumbers_opposite_sum_witness:
  "(8::int) \<in> {8, 12, 20} \<and> int (length octaFaces) = 8 \<and> onePartner octaFaces \<and>
   length (computeFaceNumbers octaFaces 8) = length octaFaces \<and>
   bij_betw (\<lambda>i. computeFaceNumbers octaFaces 8 ! i) {..<length octaFaces} {1..8} \<and>
   opposite octaFaces 0 7 \<and>
   computeFaceNumbers octaFaces 8 ! 0 + computeFaceNumbers octaFaces 8 ! 7 = 8 + 1"
proof -
  have h: "(8::int) \<in> {8, 12, 20}" "int (length octaFaces) = 8" by (simp_all add: octaFaces_def)
  have p: "onePartner octaFaces"
    by (simp add: onePartner_def octaFaces_def mkFace_def opposite_def dot_def upt_rec)
  have o: "opposite octaFaces 0 7" "0 < length octaFaces" "7 < length octaFaces"
    by (simp_all add: octaFaces_def mkFace_def opposite_def dot_def)
  from computeFaceNumbers_opposite_sum [OF h p] h p o show ?thesis by blast
qed

lemma mset_pairMembers:
  "mset (pairMembers ps) =
   (\<Sum>p \<in># mset ps. mset (if snd p \<ge> 0 then [fst p, nat (snd p)] else [fst p]))"
  by (induction ps) (simp_all add: pairMembers_Cons)

lemma mset_pairMembers_cong:
  "mset ps = mset qs \<Longrightarrow> mset (pairMembers ps) = mset (pairMembers qs)"
  by (simp add: mset_pairMembers)

lemma mset_pairMembers_topFirst:
  "mset (pairMembers (map (topFirst faces) ps)) = mset (pairMembers ps)"
  by (induction ps) (simp_all add: pairMembers_Cons topFirst_def)

lemma mset_d10Pairs: "mset (pairMembers (d10Pairs faces)) = mset (pairMembers (findPairs faces))"
proof -
  have "mset (pairMembers (d10Pairs faces)) = mset (pairMembers (map (topFirst faces) (findPairs faces)))"
    unfolding d10Pairs_def by (rule mset_pairMembers_cong) simp
  then show ?thesis by (simp add: mset_pairMembers_topFirst)
qed

lemma d10Pairs_distinct: "distinct (pairMembers (d10Pairs faces))"
  using mset_eq_imp_distinct_iff [OF mset_d10Pairs [of faces]] pairInv_findPairs [of faces]
  by (simp add: pairInv_def)

lemma d10Pairs_cover: "set (pairMembers (d10Pairs faces)) = {..<length faces}"
  using mset_eq_setD [OF mset_d10Pairs [of faces]] findPairs_cover [of faces] by simp

lemma length_d10Pairs [simp]: "length (d10Pairs faces) = length (findPairs faces)"
  by (simp add: d10Pairs_def)

lemma topFirst_entry:
  assumes "0 \<le> snd p" "opposite faces (fst p) (nat (snd p))"
  shows "0 \<le> snd (topFirst faces p) \<and>
         opposite faces (fst (topFirst faces p)) (nat (snd (topFirst faces p))) \<and>
         vy (centroid (faces ! nat (snd (topFirst faces p)))) \<le> vy (centroid (faces ! fst (topFirst faces p)))"
  using assms by (auto simp: topFirst_def dest: opposite_sym)

lemma d10Pairs_entry:
  assumes "goodPairs faces (findPairs faces)" "p \<in> set (d10Pairs faces)"
  shows "0 \<le> snd p \<and> opposite faces (fst p) (nat (snd p)) \<and>
         vy (centroid (faces ! nat (snd p))) \<le> vy (centroid (faces ! fst p))"
proof -
  from assms(2) obtain q where q: "q \<in> set (findPairs faces)" "p = topFirst faces q"
    by (auto simp: d10Pairs_def)
  with assms(1) have "0 \<le> snd q" "opposite faces (fst q) (nat (snd q))"
    by (auto simp: goodPairs_def)
  from topFirst_entry [OF this] q(2) show ?thesis by simp
qed

lemma d10Pairs_good:
  assumes "onePartner faces"
  shows "goodPairs faces (d10Pairs faces)"
  using d10Pairs_entry [OF findPairs_good [OF assms]] d10Pairs_distinct [of faces] d10Pairs_cover [of faces]
  by (simp add: goodPairs_def)

lemma d10Pairs_sorted:
  assumes "k \<le> k'" "k' < length (d10Pairs faces)"
  shows "azimuth faces (d10Pairs faces ! k) \<le> azimuth faces (d10Pairs faces ! k')"
proof -
  have "sorted (map (azimuth faces) (d10Pairs faces))"
    unfolding d10Pairs_def by (rule sorted_sort_key)
  from sorted_nth_mono [OF this, of k k'] assms show ?thesis by simp
qed

lemma odd_numbers_set:
  "(\<lambda>k. int k * 2 + 1) ` {..<5} \<union> (\<lambda>k. 11 - (int k * 2 + 1)) ` {..<5} = {1..10}"
proof -
  have five: "{..<5::nat} = {0, 1, 2, 3, 4}" by auto
  have "x \<in> {1..10} \<longleftrightarrow> x \<in> {10, 8, 6, 4, 2, 1, 3, 5, 7, 9}" for x :: int
    by (simp add: insert_iff) arith
  then have "{1..10::int} = {10, 8, 6, 4, 2, 1, 3, 5, 7, 9}" by blast
  moreover have "(\<lambda>k. int k * 2 + 1) ` {..<5} \<union> (\<lambda>k. 11 - (int k * 2 + 1)) ` {..<5} =
      {10, 8, 6, 4, 2, 1, 3, 5, 7, 9}"
    by (simp add: five)
  ultimately show ?thesis by simp
qed

lemma d10_eq:
  "computeFaceNumbers faces 10 =
   assignLoop (\<lambda>k. int k * 2 + 1) 11 (d10Pairs faces) 0 (replicate (length faces) 0)"
  by (simp add: computeFaceNumbers_def d10Pairs_def Let_def)

lemma d10_numbers:
  assumes op: "onePartner faces" and n: "length faces = 10"
  shows "set (computeFaceNumbers faces 10) = {1..10}"
    and "distinct (computeFaceNumbers faces 10)"
    and "\<lbrakk>i < 10; j < 10; opposite faces i j\<rbrakk> \<Longrightarrow>
         computeFaceNumbers faces 10 ! i + computeFaceNumbers faces 10 ! j = 11"
    and "\<lbrakk>i < 10; j < 10; opposite faces i j;
          vy (centroid (faces ! j)) < vy (centroid (faces ! i))\<rbrakk> \<Longrightarrow>
         odd (computeFaceNumbers faces 10 ! i)"
    and "\<lbrakk>i < 10; i' < 10; odd (computeFaceNumbers faces 10 ! i); odd (computeFaceNumbers faces 10 ! i');
          computeFaceNumbers faces 10 ! i < computeFaceNumbers faces 10 ! i'\<rbrakk> \<Longrightarrow>
         atan2 (vz (centroid (faces ! i))) (vx (centroid (faces ! i))) \<le>
         atan2 (vz (centroid (faces ! i'))) (vx (centroid (faces ! i')))"
    and "\<lbrakk>i < 10; j < 10; opposite faces i j; odd (computeFaceNumbers faces 10 ! i)\<rbrakk> \<Longrightarrow>
         vy (centroid (faces ! j)) \<le> vy (centroid (faces ! i))"
proof -
  let ?ps = "d10Pairs faces"
  let ?nums = "computeFaceNumbers faces 10"
  have good: "goodPairs faces ?ps" by (rule d10Pairs_good [OF op])
  have cover: "set (pairMembers ?ps) = {..<length faces}" by (rule d10Pairs_cover)
  from goodPairs_length [OF good cover] n have m: "length ?ps = 5" by simp
  have d: "distinct (pairMembers ?ps)"
    and r: "set (pairMembers ?ps) \<subseteq> {..<length (replicate (length faces) (0::int))}"
    using good by (simp_all add: goodPairs_def)
  have fst_val: "?nums ! fst (?ps ! k) = int k * 2 + 1" if "k < length ?ps" for k
    unfolding d10_eq using assignLoop_first [OF d r that, of "\<lambda>k. int k * 2 + 1" 11 0] by simp
  have snd_val: "?nums ! nat (snd (?ps ! k)) = 11 - (int k * 2 + 1)" if "k < length ?ps" for k
  proof -
    from that good have "0 \<le> snd (?ps ! k)" by (simp add: goodPairs_def)
    from assignLoop_second [OF d r that this, of "\<lambda>k. int k * 2 + 1" 11 0] show ?thesis
      unfolding d10_eq by simp
  qed
  have "set ?nums = (\<lambda>k. int k * 2 + 1) ` {..<5} \<union> (\<lambda>k. 11 - (int k * 2 + 1)) ` {..<5}"
    unfolding d10_eq assign_good_set [OF good cover] m ..
  then show set: "set ?nums = {1..10}" by (simp only: odd_numbers_set)
  have len: "length ?nums = 10" by (simp add: d10_eq n)
  have "card (set ?nums) = length ?nums" unfolding set len by simp
  then show "distinct ?nums" by (rule card_distinct)
  show sum: "?nums ! i + ?nums ! j = 11" if "i < 10" "j < 10" "opposite faces i j" for i j
    unfolding d10_eq using assign_good_sum [OF op good cover, of i j] that n by simp
  have entry: "\<exists>k < length ?ps. i = fst (?ps ! k)" if i: "i < 10" and o: "odd (?nums ! i)" for i
  proof -
    from i cover n have "i \<in> set (pairMembers ?ps)" by simp
    from pairMembers_entry [OF this] obtain k where k: "k < length ?ps"
      "i = fst (?ps ! k) \<or> i = nat (snd (?ps ! k))" by blast
    have "i \<noteq> nat (snd (?ps ! k))"
    proof
      assume "i = nat (snd (?ps ! k))"
      with snd_val [OF k(1)] have "?nums ! i = 2 * (5 - int k)" by simp
      with o show False by simp
    qed
    with k show ?thesis by blast
  qed
  show "odd (?nums ! i)"
    if i: "i < 10" and j: "j < 10" and ij: "opposite faces i j"
      and y: "vy (centroid (faces ! j)) < vy (centroid (faces ! i))" for i j
  proof -
    from i cover n have "i \<in> set (pairMembers ?ps)" by simp
    from goodPairs_partner [OF op good this _ ij] j n obtain k where k: "k < length ?ps"
      and e: "(i = fst (?ps ! k) \<and> j = nat (snd (?ps ! k))) \<or> (j = fst (?ps ! k) \<and> i = nat (snd (?ps ! k)))"
      by auto
    from k have "?ps ! k \<in> set ?ps" by simp
    from d10Pairs_entry [OF findPairs_good [OF op] this]
    have "vy (centroid (faces ! nat (snd (?ps ! k)))) \<le> vy (centroid (faces ! fst (?ps ! k)))" by simp
    with e y have "i = fst (?ps ! k)" by auto
    with fst_val [OF k] show ?thesis by simp
  qed
  show "atan2 (vz (centroid (faces ! i))) (vx (centroid (faces ! i))) \<le>
        atan2 (vz (centroid (faces ! i'))) (vx (centroid (faces ! i')))"
    if i: "i < 10" and i': "i' < 10" and o: "odd (?nums ! i)" and o': "odd (?nums ! i')"
      and lt: "?nums ! i < ?nums ! i'" for i i'
  proof -
    from entry [OF i o] obtain k where k: "k < length ?ps" "i = fst (?ps ! k)" by blast
    from entry [OF i' o'] obtain k' where k': "k' < length ?ps" "i' = fst (?ps ! k')" by blast
    from lt fst_val [OF k(1)] fst_val [OF k'(1)] k(2) k'(2) have "k \<le> k'" by simp
    from d10Pairs_sorted [OF this k'(1)] k(2) k'(2) show ?thesis by (simp add: azimuth_def)
  qed
  show "vy (centroid (faces ! j)) \<le> vy (centroid (faces ! i))"
    if i: "i < 10" and j: "j < 10" and ij: "opposite faces i j" and o: "odd (?nums ! i)" for i j
  proof -
    from i cover n have "i \<in> set (pairMembers ?ps)" by simp
    from goodPairs_partner [OF op good this _ ij] j n obtain k where k: "k < length ?ps"
      and e: "(i = fst (?ps ! k) \<and> j = nat (snd (?ps ! k))) \<or> (j = fst (?ps ! k) \<and> i = nat (snd (?ps ! k)))"
      by auto
    have "i \<noteq> nat (snd (?ps ! k))"
    proof
      assume "i = nat (snd (?ps ! k))"
      with snd_val [OF k] have "?nums ! i = 2 * (5 - int k)" by simp
      with o show False by simp
    qed
    with e have e': "i = fst (?ps ! k)" "j = nat (snd (?ps ! k))" by auto
    from k have "?ps ! k \<in> set ?ps" by simp
    from d10Pairs_entry [OF findPairs_good [OF op] this] e' show ?thesis by simp
  qed
qed

lemma assign_values:
  assumes d: "distinct (pairMembers ps)" and cover: "set (pairMembers ps) = {..<n}" and i: "i < n"
  shows "\<exists>k < length ps. assignLoop num target ps 0 (replicate n 0) ! i = num k \<or>
                          assignLoop num target ps 0 (replicate n 0) ! i = target - num k"
proof -
  have r: "set (pairMembers ps) \<subseteq> {..<length (replicate n (0::int))}" using cover by simp
  from i cover have "i \<in> set (pairMembers ps)" by simp
  from pairMembers_entry [OF this] obtain k where k: "k < length ps"
    and e: "i = fst (ps ! k) \<or> (snd (ps ! k) \<ge> 0 \<and> i = nat (snd (ps ! k)))" by blast
  from e show ?thesis
  proof
    assume "i = fst (ps ! k)"
    with assignLoop_first [OF d r k, of num target 0] k show ?thesis by auto
  next
    assume "snd (ps ! k) \<ge> 0 \<and> i = nat (snd (ps ! k))"
    with assignLoop_second [OF d r k, of num target 0] k show ?thesis by auto
  qed
qed

lemma findPairs_distinct: "distinct (pairMembers (findPairs faces))"
  using pairInv_findPairs [of faces] by (simp add: pairInv_def)

lemma numbers_values:
  assumes "sides \<noteq> 4" "sides \<noteq> 6" "i < length faces"
  shows "\<exists>k < length (findPairs faces).
           computeFaceNumbers faces sides ! i = (if sides = 10 then int k * 2 + 1 else int k + 1) \<or>
           computeFaceNumbers faces sides ! i =
             sides + 1 - (if sides = 10 then int k * 2 + 1 else int k + 1)"
proof (cases "sides = 10")
  case True
  from assign_values [OF d10Pairs_distinct d10Pairs_cover assms(3), of "\<lambda>k. int k * 2 + 1" 11]
  show ?thesis using True by (simp add: d10_eq)
next
  case False
  with assms have "computeFaceNumbers faces sides =
      assignLoop (\<lambda>k. int k + 1) (sides + 1) (findPairs faces) 0 (replicate (length faces) 0)"
    by (simp add: computeFaceNumbers_def Let_def)
  with assign_values [OF findPairs_distinct findPairs_cover assms(3), of "\<lambda>k. int k + 1" "sides + 1"]
  show ?thesis using False by simp
qed

lemma numbers_length:
  assumes "sides \<noteq> 4" "sides \<noteq> 6"
  shows "length (computeFaceNumbers faces sides) = length faces"
  using assms by (simp add: computeFaceNumbers_def Let_def)

lemma numberedPairs_members:
  "distinct (pairMembers (numberedPairs faces sides))"
  "set (pairMembers (numberedPairs faces sides)) = {..<length faces}"
  "length (numberedPairs faces sides) = length (findPairs faces)"
  by (simp_all add: numberedPairs_def d10Pairs_distinct d10Pairs_cover findPairs_distinct
      findPairs_cover)

lemma numbers_assign:
  assumes "sides \<noteq> 4" "sides \<noteq> 6"
  shows "computeFaceNumbers faces sides =
           assignLoop (\<lambda>k. if sides = 10 then int k * 2 + 1 else int k + 1) (sides + 1)
             (numberedPairs faces sides) 0 (replicate (length faces) 0)"
proof (cases "sides = 10")
  case True
  have "(\<lambda>k. if (10::int) = 10 then int k * 2 + 1 else int k + 1) = (\<lambda>k. int k * 2 + 1)" by simp
  with True show ?thesis by (simp add: d10_eq numberedPairs_def)
next
  case False
  then have "(\<lambda>k. if sides = 10 then int k * 2 + 1 else int k + 1) = (\<lambda>k. int k + 1)" by simp
  with False assms show ?thesis by (simp add: computeFaceNumbers_def Let_def numberedPairs_def)
qed

text \<open>The number of each pair entry: what the loop writes in round \<open>k\<close> is still there at the end.\<close>

lemma numbers_per_entry:
  assumes "sides \<noteq> 4" "sides \<noteq> 6" "k < length (numberedPairs faces sides)"
  shows "computeFaceNumbers faces sides ! fst (numberedPairs faces sides ! k) =
           (if sides = 10 then int k * 2 + 1 else int k + 1)"
    and "0 \<le> snd (numberedPairs faces sides ! k) \<Longrightarrow>
         computeFaceNumbers faces sides ! nat (snd (numberedPairs faces sides ! k)) =
           sides + 1 - (if sides = 10 then int k * 2 + 1 else int k + 1)"
proof -
  let ?ps = "numberedPairs faces sides"
  have d: "distinct (pairMembers ?ps)" by (rule numberedPairs_members(1))
  have r: "set (pairMembers ?ps) \<subseteq> {..<length (replicate (length faces) (0::int))}"
    by (simp add: numberedPairs_members(2))
  show "computeFaceNumbers faces sides ! fst (?ps ! k) = (if sides = 10 then int k * 2 + 1 else int k + 1)"
    unfolding numbers_assign [OF assms(1,2)]
    using assignLoop_first [OF d r assms(3),
        of "\<lambda>k. if sides = 10 then int k * 2 + 1 else int k + 1" "sides + 1" 0]
    by simp
  show "computeFaceNumbers faces sides ! nat (snd (?ps ! k)) =
          sides + 1 - (if sides = 10 then int k * 2 + 1 else int k + 1)"
    if "0 \<le> snd (?ps ! k)"
    unfolding numbers_assign [OF assms(1,2)]
    using assignLoop_second [OF d r assms(3) that,
        of "\<lambda>k. if sides = 10 then int k * 2 + 1 else int k + 1" "sides + 1" 0]
    by simp
qed

text \<open>
  C9, as the code has it: for every non-empty face list and every sides value other than 4
  and 6, \<open>computeFaceNumbers\<close> returns one entry per face; the pairing loop places every
  face index in exactly one pair entry, and so does the pair list that the numbering loop
  reads (for sides 10 the reoriented and sorted one); the first face of the pair entry
  that the loop numbers in round \<open>k\<close> has the number \<open>k + 1\<close> (\<open>2 k + 1\<close> when sides is
  10) and its partner, if it has one, has sides + 1 minus that number, so every entry of
  the result is the number of its pair entry or sides + 1 minus it; and all entries are
  positive when the loop makes at most sides pair entries (at most 5 when sides is 10).
\<close>

theorem computeFaceNumbers_all_numbered:
  assumes "faces \<noteq> []" "sides \<noteq> 4" "sides \<noteq> 6"
  shows "length (computeFaceNumbers faces sides) = length faces \<and>
         distinct (pairMembers (findPairs faces)) \<and>
         set (pairMembers (findPairs faces)) = {..<length faces} \<and>
         distinct (pairMembers (numberedPairs faces sides)) \<and>
         set (pairMembers (numberedPairs faces sides)) = {..<length faces} \<and>
         length (numberedPairs faces sides) = length (findPairs faces) \<and>
         (\<forall>k < length (numberedPairs faces sides).
            computeFaceNumbers faces sides ! fst (numberedPairs faces sides ! k) =
              (if sides = 10 then int k * 2 + 1 else int k + 1) \<and>
            (0 \<le> snd (numberedPairs faces sides ! k) \<longrightarrow>
               computeFaceNumbers faces sides ! nat (snd (numberedPairs faces sides ! k)) =
                 sides + 1 - (if sides = 10 then int k * 2 + 1 else int k + 1))) \<and>
         (\<forall>i < length faces. \<exists>k < length (findPairs faces).
            computeFaceNumbers faces sides ! i = (if sides = 10 then int k * 2 + 1 else int k + 1) \<or>
            computeFaceNumbers faces sides ! i =
              sides + 1 - (if sides = 10 then int k * 2 + 1 else int k + 1)) \<and>
         (int (length (findPairs faces)) \<le> (if sides = 10 then 5 else sides) \<longrightarrow>
            (\<forall>i < length faces. 0 < computeFaceNumbers faces sides ! i))"
proof -
  have pos: "0 < computeFaceNumbers faces sides ! i"
    if le: "int (length (findPairs faces)) \<le> (if sides = 10 then 5 else sides)"
      and i: "i < length faces" for i
  proof -
    from numbers_values [OF assms(2,3) i] obtain k where k: "k < length (findPairs faces)"
      and v: "computeFaceNumbers faces sides ! i = (if sides = 10 then int k * 2 + 1 else int k + 1) \<or>
              computeFaceNumbers faces sides ! i =
                sides + 1 - (if sides = 10 then int k * 2 + 1 else int k + 1)" by blast
    show ?thesis
    proof (cases "sides = 10")
      case True
      with le k have "int k < 5" by simp
      with v True show ?thesis by auto
    next
      case False
      with le k have "int k < sides" by simp
      with v False show ?thesis by auto
    qed
  qed
  have entry: "computeFaceNumbers faces sides ! fst (numberedPairs faces sides ! k) =
        (if sides = 10 then int k * 2 + 1 else int k + 1) \<and>
      (0 \<le> snd (numberedPairs faces sides ! k) \<longrightarrow>
         computeFaceNumbers faces sides ! nat (snd (numberedPairs faces sides ! k)) =
           sides + 1 - (if sides = 10 then int k * 2 + 1 else int k + 1))"
    if "k < length (numberedPairs faces sides)" for k
    using numbers_per_entry [OF assms(2,3) that] by blast
  show ?thesis
    using numbers_length [OF assms(2,3)] findPairs_distinct [of faces] findPairs_cover [of faces]
      numberedPairs_members [of faces sides] numbers_values [OF assms(2,3)] pos entry
    by blast
qed

lemma cube_pairs: "findPairs cubeFaces = [(0, 1), (2, 3), (4, 5)]"
  by (simp add: findPairs_def cubeFaces_def mkFace_def opposite_def dot_def upt_rec)

text \<open>
  C9 as stated fails: on the six cube faces with sides = 2 the last face keeps the value 0
  (its pair entry has index 2, and 2 + 1 - 3 = 0).
\<close>

theorem computeFaceNumbers_zero_entry:
  "cubeFaces \<noteq> [] \<and> (2::int) \<noteq> 4 \<and> (2::int) \<noteq> 6 \<and>
   computeFaceNumbers cubeFaces 2 = [1, 2, 2, 1, 3, 0] \<and>
   \<not> 0 < computeFaceNumbers cubeFaces 2 ! 5"
proof -
  have "computeFaceNumbers cubeFaces 2 = [1, 2, 2, 1, 3, 0]"
    by (simp add: computeFaceNumbers_def cube_pairs) (simp add: cubeFaces_def)
  then show ?thesis by (simp add: cubeFaces_def)
qed

theorem computeFaceNumbers_all_numbered_witness:
  "cubeFaces \<noteq> [] \<and> (8::int) \<noteq> 4 \<and> (8::int) \<noteq> 6 \<and>
   int (length (findPairs cubeFaces)) \<le> (if (8::int) = 10 then 5 else 8) \<and>
   length (computeFaceNumbers cubeFaces 8) = length cubeFaces \<and>
   numberedPairs cubeFaces 8 = [(0, 1), (2, 3), (4, 5)] \<and>
   computeFaceNumbers cubeFaces 8 ! fst (numberedPairs cubeFaces 8 ! 1) =
     (if (8::int) = 10 then int 1 * 2 + 1 else int 1 + 1) \<and>
   computeFaceNumbers cubeFaces 8 ! nat (snd (numberedPairs cubeFaces 8 ! 1)) =
     8 + 1 - (if (8::int) = 10 then int 1 * 2 + 1 else int 1 + 1) \<and>
   0 < computeFaceNumbers cubeFaces 8 ! 5 \<and>
   computeFaceNumbers cubeFaces 8 = [1, 8, 2, 7, 3, 6]"
proof -
  have h: "cubeFaces \<noteq> []" "(8::int) \<noteq> 4" "(8::int) \<noteq> 6" by (simp_all add: cubeFaces_def)
  have le: "int (length (findPairs cubeFaces)) \<le> (if (8::int) = 10 then 5 else 8)"
    by (simp add: cube_pairs)
  have v: "computeFaceNumbers cubeFaces 8 = [1, 8, 2, 7, 3, 6]"
    by (simp add: computeFaceNumbers_def cube_pairs) (simp add: cubeFaces_def)
  have ps: "numberedPairs cubeFaces 8 = [(0, 1), (2, 3), (4, 5)]"
    by (simp add: numberedPairs_def cube_pairs)
  have i: "5 < length cubeFaces" by (simp add: cubeFaces_def)
  have k: "1 < length (numberedPairs cubeFaces 8)" "0 \<le> snd (numberedPairs cubeFaces 8 ! 1)"
    by (simp_all add: ps)
  from computeFaceNumbers_all_numbered [OF h] le h v ps i k show ?thesis by blast
qed

lemma d10Faces_onePartner: "onePartner d10Faces"
  by (simp add: onePartner_def d10Faces_def mkFace_def opposite_def dot_def upt_rec)

lemma d10Faces_pairs: "findPairs d10Faces = [(0, 3), (1, 4), (2, 5), (6, 8), (7, 9)]"
  by (simp add: findPairs_def d10Faces_def mkFace_def opposite_def dot_def upt_rec)

lemma d10Faces_top: "map (topFirst d10Faces) (findPairs d10Faces) = [(3, 0), (1, 4), (5, 2), (6, 8), (9, 7)]"
  by (simp add: d10Faces_pairs) (simp add: topFirst_def d10Faces_def mkFace_def)

lemma d10Faces_sorted: "d10Pairs d10Faces = [(5, 2), (9, 7), (3, 0), (1, 4), (6, 8)]"
  by (simp add: d10Pairs_def d10Faces_top) (simp add: azimuth_def atan2_def d10Faces_def mkFace_def arctan_le_iff arctan_less_iff)

lemma d10Faces_numbers: "computeFaceNumbers d10Faces 10 = [6, 7, 10, 5, 4, 1, 9, 8, 2, 3]"
  by (simp add: d10_eq d10Faces_sorted) (simp add: d10Faces_def)

text \<open>
  C5: for ten faces in which every face has exactly one anti-parallel partner,
  \<open>computeFaceNumbers faces 10\<close> numbers the faces 1..10, each once; the numbers of two
  opposite faces add up to 11, so each partner has 11 minus the odd number of its pair;
  the odd number of a pair is on the face whose centroid is higher (the other face is
  never higher than the odd one); and the odd numbers ascend with the azimuth
  \<open>atan2 (centroid.z, centroid.x)\<close> of their faces.
\<close>

theorem computeFaceNumbers_d10:
  assumes "length faces = 10" "onePartner faces"
  shows "set (computeFaceNumbers faces 10) = {1..10} \<and> distinct (computeFaceNumbers faces 10) \<and>
         (\<forall>i < 10. \<forall>j < 10. opposite faces i j \<longrightarrow>
            computeFaceNumbers faces 10 ! i + computeFaceNumbers faces 10 ! j = 11 \<and>
            (vy (centroid (faces ! j)) < vy (centroid (faces ! i)) \<longrightarrow>
               odd (computeFaceNumbers faces 10 ! i)) \<and>
            (odd (computeFaceNumbers faces 10 ! i) \<longrightarrow>
               vy (centroid (faces ! j)) \<le> vy (centroid (faces ! i)))) \<and>
         (\<forall>i < 10. \<forall>i' < 10.
            odd (computeFaceNumbers faces 10 ! i) \<and> odd (computeFaceNumbers faces 10 ! i') \<and>
            computeFaceNumbers faces 10 ! i < computeFaceNumbers faces 10 ! i' \<longrightarrow>
            atan2 (vz (centroid (faces ! i))) (vx (centroid (faces ! i))) \<le>
            atan2 (vz (centroid (faces ! i'))) (vx (centroid (faces ! i'))))"
  using d10_numbers [OF assms(2,1)] by blast

theorem computeFaceNumbers_d10_witness:
  "length d10Faces = 10 \<and> onePartner d10Faces \<and>
   computeFaceNumbers d10Faces 10 = [6, 7, 10, 5, 4, 1, 9, 8, 2, 3] \<and>
   set (computeFaceNumbers d10Faces 10) = {1..10} \<and>
   opposite d10Faces 3 0 \<and>
   vy (centroid (d10Faces ! 0)) < vy (centroid (d10Faces ! 3)) \<and>
   odd (computeFaceNumbers d10Faces 10 ! 3) \<and>
   computeFaceNumbers d10Faces 10 ! 3 + computeFaceNumbers d10Faces 10 ! 0 = 11"
proof -
  have h: "length d10Faces = 10" by (simp add: d10Faces_def)
  have o: "opposite d10Faces 3 0" "vy (centroid (d10Faces ! 0)) < vy (centroid (d10Faces ! 3))"
    by (simp_all add: d10Faces_def mkFace_def opposite_def dot_def)
  have "(3::nat) < 10" "(0::nat) < 10" by simp_all
  with computeFaceNumbers_d10 [OF h d10Faces_onePartner] o
  have "odd (computeFaceNumbers d10Faces 10 ! 3) \<and>
        computeFaceNumbers d10Faces 10 ! 3 + computeFaceNumbers d10Faces 10 ! 0 = 11" by blast
  with computeFaceNumbers_d10 [OF h d10Faces_onePartner] h d10Faces_onePartner d10Faces_numbers o
  show ?thesis by blast
qed
section \<open>parseColor\<close>

text \<open>
  What \<open>parseColor\<close> does on the inputs its documentation names: a number comes back
  unchanged, a string that starts with \<open>#\<close> is read as hexadecimal after the \<open>#\<close>, each
  of the eight class names gives its table entry, a value that is neither a number nor a
  string gives the grey default, and so does a string that is neither of these nor a key
  of \<open>Object.prototype\<close>.
\<close>

lemma parseColor_number: "parseColor (JNumber x) = JNumber x" "parseColor JNaN = JNaN"
  "parseColor JInfinity = JInfinity" "parseColor JNegInfinity = JNegInfinity"
  by (simp_all add: parseColor_def)

lemma parseColor_hash: "parseColor (JString (CHR ''#'' # rest)) = parseInt16 rest"
  by (simp add: parseColor_def)

lemma parseColor_tailwind:
  "(name, v) \<in> set TAILWIND_MAP \<Longrightarrow> parseColor (JString name) = JNumber (of_int v)"
  by (auto simp: parseColor_def getProperty_def TAILWIND_MAP_def)

lemma parseColor_other: "parseColor JOther = JNumber 0x6b7280"
  "parseColor (JInherited k) = JNumber 0x6b7280"
  by (simp_all add: parseColor_def)

lemma parseColor_unknown_string:
  assumes "take 1 s \<noteq> ''#''" "s \<notin> fst ` set TAILWIND_MAP" "s \<notin> set objectPrototypeKeys"
  shows "parseColor (JString s) = JNumber 0x6b7280"
proof -
  from assms(2) have "map_of TAILWIND_MAP s = None" by (simp add: map_of_eq_None_iff)
  with assms(1,3) show ?thesis by (simp add: parseColor_def getProperty_def)
qed

text \<open>Below \<open>2 ^ 53\<close> the double is the number itself.\<close>

lemma excessBits_small: "m < 2 ^ 53 \<Longrightarrow> excessBits n m = 0"
  by (cases n) simp_all

lemma toDouble_exact:
  assumes "m < 2 ^ 53"
  shows "toDouble digits m = Some m"
proof -
  have "m < (2::nat) ^ 1024"
    by (rule less_trans [OF assms]) simp
  then show ?thesis by (simp add: toDouble_def excessBits_small [OF assms])
qed

lemma parseInt16_unfold:
  "trimStart str = s \<Longrightarrow>
   parseInt16 str =
     (let sign = (if take 1 s = ''-'' then - 1 else 1 :: int);
          s1 = (if take 1 s = ''-'' \<or> take 1 s = ''+'' then drop 1 s else s);
          s2 = (if take 2 s1 = ''0x'' \<or> take 2 s1 = ''0X'' then drop 2 s1 else s1);
          z = hexPrefix s2
      in if z = [] then JNaN
         else case toDouble (length z) (foldl (\<lambda>acc d. acc * 16 + d) 0 z) of
                None \<Rightarrow> if sign < 0 then JNegInfinity else JInfinity
              | Some m \<Rightarrow> JNumber (of_int (sign * int m)))"
  by (simp add: parseInt16_def)

lemma parseColor_hex_example: "parseColor (JString ''#3b82f6'') = JNumber 0x3b82f6"
proof -
  have z: "hexPrefix ''3b82f6'' = [3, 11, 8, 2, 15, 6]" by (simp add: hexDigit_def)
  have t: "trimStart ''3b82f6'' = ''3b82f6''" by (simp add: trimStart_def whiteSpaceLength_def)
  have "parseInt16 ''3b82f6'' = JNumber 0x3b82f6"
    unfolding parseInt16_unfold [OF t] by (simp add: z toDouble_exact del: hexPrefix.simps)
  then show ?thesis by (simp add: parseColor_def)
qed

text \<open>
  A no-break space (bytes C2 A0) after the \<open>#\<close> is skipped, and \<open>2 ^ 53 + 1\<close> is rounded
  to \<open>2 ^ 53\<close>.
\<close>

lemma parseColor_space_example:
  "parseColor (JString (CHR ''#'' # char_of (0xC2 :: nat) # char_of (0xA0 :: nat) # ''ff'')) = JNumber 255"
proof -
  have t: "trimStart (char_of (0xC2 :: nat) # char_of (0xA0 :: nat) # ''ff'') = ''ff''"
    by (simp add: trimStart_def whiteSpaceLength_def)
  have z: "hexPrefix ''ff'' = [15, 15]" by (simp add: hexDigit_def)
  have "parseInt16 (char_of (0xC2 :: nat) # char_of (0xA0 :: nat) # ''ff'') = JNumber 255"
    unfolding parseInt16_unfold [OF t] by (simp add: z toDouble_exact del: hexPrefix.simps)
  then show ?thesis by (simp add: parseColor_def)
qed

lemma excessBits_tie: "0 < n \<Longrightarrow> excessBits n 9007199254740993 = 1"
  by (cases n) (simp_all add: excessBits_small)

lemma toDouble_tie: "0 < digits \<Longrightarrow> toDouble digits 9007199254740993 = Some 9007199254740992"
proof -
  assume "0 < digits"
  then have e: "excessBits (4 * digits) 9007199254740993 = 1" by (intro excessBits_tie) simp
  have "(9007199254740992::nat) < 2 ^ 1024"
    by (rule less_trans [of _ "2 ^ 54"]) simp_all
  then show ?thesis by (simp add: toDouble_def e)
qed

lemma parseColor_rounding_example:
  "parseColor (JString ''#20000000000001'') = JNumber 9007199254740992"
proof -
  have z: "hexPrefix ''20000000000001'' = [2, 0, 0, 0, 0, 0, 0, 0, 0, 0, 0, 0, 0, 1]"
    by (simp add: hexDigit_def)
  have t: "trimStart ''20000000000001'' = ''20000000000001''"
    by (simp add: trimStart_def whiteSpaceLength_def)
  have "parseInt16 ''20000000000001'' = JNumber 9007199254740992"
    unfolding parseInt16_unfold [OF t] by (simp add: z toDouble_tie del: hexPrefix.simps)
  then show ?thesis by (simp add: parseColor_def)
qed

text \<open>
  The rounds given to the two loops are enough: after \<open>trimStart\<close> no white space is
  left at the front, and the significand that \<open>toDouble\<close> rounds has at most 53 bits.
\<close>

lemma whiteSpaceLength_le: "whiteSpaceLength bs \<le> length bs"
proof -
  have t: "take n bs = xs \<Longrightarrow> length xs = n \<Longrightarrow> n \<le> length bs" for n and xs :: "nat list"
    by (metis length_take min.cobounded1 min.commute)
  have one: "take 1 bs \<in> {[9], [10], [11], [12], [13], [32]} \<Longrightarrow> 1 \<le> length bs"
    by (cases bs) auto
  show ?thesis
    using one t [of 2 "[0xC2, 0xA0]"] t [of 3 "[0xE1, 0x9A, 0x80]"] t [of 3 "[0xE2, 0x81, 0x9F]"]
      t [of 3 "[0xE3, 0x80, 0x80]"] t [of 3 "[0xEF, 0xBB, 0xBF]"]
    by (simp add: whiteSpaceLength_def)
qed

lemma skipWhiteSpace_done:
  "length s \<le> n \<Longrightarrow> whiteSpaceLength (map of_char (skipWhiteSpace n s)) = 0"
proof (induction n arbitrary: s)
  case 0
  then show ?case by (simp add: whiteSpaceLength_def)
next
  case (Suc n)
  let ?k = "whiteSpaceLength (map of_char s)"
  show ?case
  proof (cases "?k = 0")
    case True
    then show ?thesis by simp
  next
    case False
    with Suc.prems have "length (drop ?k s) \<le> n" by simp
    from Suc.IH [OF this] False show ?thesis by (simp add: Let_def)
  qed
qed

lemma trimStart_done: "whiteSpaceLength (map of_char (trimStart s)) = 0"
  by (simp add: trimStart_def skipWhiteSpace_done)

lemma excessBits_enough: "m < 2 ^ (53 + n) \<Longrightarrow> m div 2 ^ excessBits n m < 2 ^ 53"
proof (induction n arbitrary: m)
  case 0
  then show ?case by simp
next
  case (Suc n)
  show ?case
  proof (cases "m < 2 ^ 53")
    case True
    then show ?thesis by simp
  next
    case False
    from Suc.prems have "m < 2 * 2 ^ (53 + n)"
      by (simp only: add_Suc_right power_Suc)
    then have "m div 2 < 2 ^ (53 + n)" by linarith
    from Suc.IH [OF this] False show ?thesis by (simp add: div_mult2_eq)
  qed
qed

lemma hexDigit_less: "hexDigit c = Some d \<Longrightarrow> d < 16"
  by (auto simp: hexDigit_def Let_def split: if_splits)

lemma hexPrefix_digits: "d \<in> set (hexPrefix s) \<Longrightarrow> d < 16"
proof (induction s)
  case Nil
  then show ?case by simp
next
  case (Cons c cs)
  show ?case
  proof (cases "hexDigit c")
    case None
    with Cons.prems show ?thesis by simp
  next
    case (Some e)
    from Some have "e < 16" by (rule hexDigit_less)
    with Cons Some show ?thesis by auto
  qed
qed

lemma hex_value_less:
  "\<forall>d \<in> set z. d < 16 \<Longrightarrow> (acc :: nat) < 16 ^ k \<Longrightarrow>
   foldl (\<lambda>acc d. acc * 16 + d) acc z < 16 ^ (k + length z)"
proof (induction z arbitrary: acc k)
  case Nil
  then show ?case by simp
next
  case (Cons d z)
  from Cons.prems have "d < 16" by simp
  moreover from Cons.prems have "Suc acc \<le> 16 ^ k" by simp
  then have "Suc acc * 16 \<le> 16 ^ k * 16" by (rule mult_le_mono1)
  ultimately have "acc * 16 + d < 16 ^ (Suc k)" by simp
  from Cons.IH [OF _ this] Cons.prems(1) show ?case by simp
qed

lemma parseInt16_significand:
  "foldl (\<lambda>acc d. acc * 16 + d) 0 (hexPrefix s) div
     2 ^ excessBits (4 * length (hexPrefix s)) (foldl (\<lambda>acc d. acc * 16 + d) 0 (hexPrefix s)) < 2 ^ 53"
proof -
  let ?z = "hexPrefix s"
  let ?m = "foldl (\<lambda>acc d. acc * 16 + d) 0 ?z"
  have "?m < 16 ^ (0 + length ?z)"
    by (rule hex_value_less) (simp_all add: hexPrefix_digits)
  also have "(16::nat) ^ (0 + length ?z) = 2 ^ (4 * length ?z)"
    by (simp add: power_mult)
  also have "(2::nat) ^ (4 * length ?z) \<le> 2 ^ (53 + 4 * length ?z)" by simp
  finally show ?thesis by (rule excessBits_enough)
qed

text \<open>
  C10 fails on the code: the string \<open>constructor\<close> does not start with \<open>#\<close> and is none
  of the eight class names, yet \<open>parseColor\<close> returns the inherited member
  \<open>TAILWIND_MAP.constructor\<close> (a function), not the grey default 0x6b7280.
\<close>

theorem parseColor_inherited_key:
  "take 1 ''constructor'' \<noteq> ''#'' \<and> ''constructor'' \<notin> fst ` set TAILWIND_MAP \<and>
   parseColor (JString ''constructor'') = JInherited ''constructor'' \<and>
   parseColor (JString ''constructor'') \<noteq> JNumber 0x6b7280"
  by (simp add: parseColor_def getProperty_def TAILWIND_MAP_def objectPrototypeKeys_def)

section \<open>The reference vector of the settle orientation\<close>

lemma abs_gt_square:
  fixes b :: real
  assumes "\<bar>b\<bar> > 0.99"
  shows "b * b > 9801 / 10000"
proof -
  from assms have "0 < (\<bar>b\<bar> - 0.99) * (\<bar>b\<bar> + 0.99)" by (intro mult_pos_pos) simp_all
  also have "(\<bar>b\<bar> - 0.99) * (\<bar>b\<bar> + 0.99) = \<bar>b\<bar> * \<bar>b\<bar> - 9801 / 10000" by (simp add: algebra_simps)
  finally show ?thesis by simp
qed

lemma abs_le_square:
  fixes b :: real
  assumes "\<bar>b\<bar> \<le> 0.99"
  shows "b * b \<le> 9801 / 10000"
proof -
  from assms have "(\<bar>b\<bar> - 0.99) * (\<bar>b\<bar> + 0.99) \<le> 0"
    by (intro mult_nonpos_nonneg) simp_all
  moreover have "(\<bar>b\<bar> - 0.99) * (\<bar>b\<bar> + 0.99) = \<bar>b\<bar> * \<bar>b\<bar> - 9801 / 10000" by (simp add: algebra_simps)
  ultimately show ?thesis by simp
qed

lemma vlength_eq_one_iff: "vlength a = 1 \<longleftrightarrow> vx a * vx a + vy a * vy a + vz a * vz a = 1"
  by (simp add: vlength_def)

lemma normalize_unit: "vlength a = 1 \<Longrightarrow> normalize a = a"
  by (simp add: normalize_def)

lemma sq_sum_zero:
  fixes a b c :: real
  shows "a * a + b * b + c * c = 0 \<longleftrightarrow> a = 0 \<and> b = 0 \<and> c = 0"
proof
  assume h: "a * a + b * b + c * c = 0"
  have "0 \<le> a * a" "0 \<le> b * b" "0 \<le> c * c" by simp_all
  with h have "a * a = 0" "b * b = 0" "c * c = 0" by linarith+
  then show "a = 0 \<and> b = 0 \<and> c = 0" by simp
qed simp

lemma vlength_zero_iff: "vlength a = 0 \<longleftrightarrow> a = Vector3 0 0 0"
  by (cases a) (simp add: vlength_def sq_sum_zero)

lemma normalize_zero_iff: "normalize a = Vector3 0 0 0 \<longleftrightarrow> a = Vector3 0 0 0"
  by (cases a) (auto simp: normalize_def Let_def vlength_zero_iff)

lemma crossVectors_normalize:
  "crossVectors (normalize p) n =
     (let l = (if vlength p = 0 then 1 else vlength p)
      in Vector3 (vx (crossVectors p n) / l) (vy (crossVectors p n) / l) (vz (crossVectors p n) / l))"
  by (simp add: crossVectors_def normalize_def Let_def diff_divide_distrib)

lemma scaled_nonzero:
  assumes "v \<noteq> Vector3 0 0 0" "l \<noteq> 0"
  shows "Vector3 (vx v / l) (vy v / l) (vz v / l) \<noteq> Vector3 0 0 0"
  using assms by (cases v) auto

lemma unit_facts:
  assumes "vlength n = 1"
  shows "settleProjected n \<noteq> Vector3 0 0 0" and "crossVectors (settleProjected n) n \<noteq> Vector3 0 0 0"
proof -
  obtain a b c where n: "n = Vector3 a b c" by (cases n)
  with assms have u: "a * a + b * b + c * c = 1" by (simp add: vlength_eq_one_iff)
  have "settleProjected n \<noteq> Vector3 0 0 0 \<and> crossVectors (settleProjected n) n \<noteq> Vector3 0 0 0"
  proof (cases "\<bar>b\<bar> > 0.99")
    case True
    from abs_gt_square [OF True] have bb: "b * b > 9801 / 10000" .
    have "0 \<le> a * a" by simp
    with u bb have "c * c < 1" by linarith
    then have nz: "1 - c * c \<noteq> 0" by simp
    from bb have b0: "b \<noteq> 0" by auto
    have p: "settleProjected n = Vector3 (- (a * c)) (- (b * c)) (1 - c * c)"
      using True n by (simp add: settleProjected_def settleRef_def dot_def addScaledVector_def)
    have "crossVectors (settleProjected n) n = Vector3 (- b * (c * c + (1 - c * c))) (a * (c * c + (1 - c * c))) 0"
      by (simp only: p) (simp add: n crossVectors_def algebra_simps)
    then have "crossVectors (settleProjected n) n = Vector3 (- b) a 0" by simp
    with p nz b0 show ?thesis by simp
  next
    case False
    then have "\<bar>b\<bar> \<le> 0.99" by simp
    from abs_le_square [OF this] have bb: "b * b \<le> 9801 / 10000" .
    then have nz: "1 - b * b \<noteq> 0" by simp
    with u have ac: "a * a + c * c \<noteq> 0" by linarith
    have p: "settleProjected n = Vector3 (- (a * b)) (1 - b * b) (- (c * b))"
      using False n by (simp add: settleProjected_def settleRef_def dot_def addScaledVector_def)
    have "crossVectors (settleProjected n) n = Vector3 (c * (b * b + (1 - b * b))) 0 (- a * (b * b + (1 - b * b)))"
      by (simp only: p) (simp add: n crossVectors_def algebra_simps)
    then have "crossVectors (settleProjected n) n = Vector3 c 0 (- a)" by simp
    moreover from ac have "a \<noteq> 0 \<or> c \<noteq> 0" by auto
    ultimately show ?thesis using p nz by auto
  qed
  then show "settleProjected n \<noteq> Vector3 0 0 0" and "crossVectors (settleProjected n) n \<noteq> Vector3 0 0 0"
    by simp_all
qed

lemma refUp_cross_nonzero:
  assumes "vlength n = 1"
  shows "crossVectors (settleRefUp n) n \<noteq> Vector3 0 0 0"
proof -
  let ?p = "settleProjected n"
  let ?l = "if vlength ?p = 0 then 1 else vlength ?p"
  have "?l \<noteq> 0" by simp
  from scaled_nonzero [OF unit_facts(2) [OF assms] this]
  show ?thesis unfolding settleRefUp_def crossVectors_normalize Let_def .
qed

lemma crossVectors_addScaled_self:
  "crossVectors (addScaledVector a n s) n = crossVectors a n"
  by (simp add: crossVectors_def addScaledVector_def algebra_simps)

lemma crossVectors_negate: "crossVectors (negate a) n = negate (crossVectors a n)"
  by (simp add: crossVectors_def negate_def)

lemma negate_zero_iff: "negate a = Vector3 0 0 0 \<longleftrightarrow> a = Vector3 0 0 0"
  by (cases a) (simp add: negate_def)

lemma crossVectors_normalize_zero_iff:
  "crossVectors (normalize p) n = Vector3 0 0 0 \<longleftrightarrow> crossVectors p n = Vector3 0 0 0"
proof -
  let ?l = "if vlength p = 0 then 1 else vlength p"
  have l: "?l \<noteq> 0" by simp
  obtain x y z where c: "crossVectors p n = Vector3 x y z" by (cases "crossVectors p n")
  have "crossVectors (normalize p) n = Vector3 (x / ?l) (y / ?l) (z / ?l)"
    unfolding crossVectors_normalize Let_def c by simp
  with l c show ?thesis by simp
qed

text \<open>Ten sides: the cross product vanishes exactly when the direction to the pole is along the normal.\<close>

lemma settleCross_d10:
  "settleCross face 10 = Vector3 0 0 0 \<longleftrightarrow>
     crossVectors
       (subVectors (if vy (centroid face) > 0 then Vector3 0 1.2 0 else Vector3 0 (- 1.2) 0)
          (centroid face))
       (normalize (normal face)) = Vector3 0 0 0"
  by (simp add: settleCross_def settleFaceUp_def faceUpOf_def Let_def crossVectors_negate
      negate_zero_iff crossVectors_normalize_zero_iff crossVectors_addScaled_self)

text \<open>The loop returns the start value or the direction to one of the vertices.\<close>

lemma snapLoop_result:
  "snd (snapLoop c refUp vs (b, fu)) = fu \<and> b \<noteq> None \<or>
   (\<exists>v \<in> set vs. snd (snapLoop c refUp vs (b, fu)) = normalize (subVectors v c)) \<or>
   vs = [] \<and> snd (snapLoop c refUp vs (b, fu)) = fu"
proof (induction vs arbitrary: b fu)
  case Nil
  then show ?case by simp
next
  case (Cons v vs)
  let ?dir = "normalize (subVectors v c)"
  let ?d = "dot ?dir refUp"
  show ?case
  proof (cases "case b of None \<Rightarrow> True | Some b' \<Rightarrow> ?d > b'")
    case True
    then have s: "snapLoop c refUp (v # vs) (b, fu) = snapLoop c refUp vs (Some ?d, ?dir)"
      by (simp add: Let_def)
    from Cons.IH [of "Some ?d" ?dir] show ?thesis unfolding s by auto
  next
    case False
    then have s: "snapLoop c refUp (v # vs) (b, fu) = snapLoop c refUp vs (b, fu)"
      by (simp add: Let_def)
    from False have "b \<noteq> None" by (cases b) auto
    with Cons.IH [of b fu] show ?thesis unfolding s by auto
  qed
qed

lemma snapLoop_vertex:
  assumes "vs \<noteq> []"
  shows "\<exists>v \<in> set vs. snd (snapLoop c refUp vs (None, fu)) = normalize (subVectors v c)"
  using snapLoop_result [of c refUp vs None fu] assms by auto

lemma settleCross_snap:
  assumes "sides \<noteq> 6" "sides \<noteq> 10" "length (verts face) \<ge> 3"
    and "\<forall>v \<in> set (verts face). crossVectors (subVectors v (centroid face)) (normalize (normal face)) \<noteq> Vector3 0 0 0"
  shows "settleCross face sides \<noteq> Vector3 0 0 0"
proof -
  from assms(3) have ne: "verts face \<noteq> []" by auto
  from snapLoop_vertex [OF ne] obtain v where v: "v \<in> set (verts face)"
    and r: "snd (snapLoop (centroid face) (settleRefUp (normalize (normal face))) (verts face)
              (None, settleRefUp (normalize (normal face)))) = normalize (subVectors v (centroid face))"
    by blast
  from assms(1-3) r have "settleFaceUp face sides = normalize (subVectors v (centroid face))"
    by (simp add: settleFaceUp_def faceUpOf_def Let_def)
  with assms(4) v show ?thesis
    by (simp add: settleCross_def crossVectors_normalize_zero_iff)
qed

text \<open>A direction in the plane of the face, other than zero, is not along the unit normal.\<close>

lemma lagrange:
  "dot (crossVectors w n) (crossVectors w n) = dot w w * dot n n - dot w n * dot w n"
  by (simp add: dot_def crossVectors_def algebra_simps)

lemma in_plane_cross:
  assumes "vlength n = 1" "dot w n = 0" "w \<noteq> Vector3 0 0 0"
  shows "crossVectors w n \<noteq> Vector3 0 0 0"
proof
  assume z: "crossVectors w n = Vector3 0 0 0"
  from assms(1) have "dot n n = 1" by (simp add: vlength_eq_one_iff dot_def)
  with lagrange [of w n] assms(2) z have "dot w w = 0" by (simp add: dot_def)
  then have "w = Vector3 0 0 0" by (cases w) (simp add: dot_def sq_sum_zero)
  with assms(3) show False by simp
qed

lemma subVectors_zero_iff: "subVectors v c = Vector3 0 0 0 \<longleftrightarrow> v = c"
  by (cases v; cases c) (simp add: subVectors_def)

text \<open>
  C7, as the code has it: the reference vector is (0,1,0) unless the absolute value of
  the dot product of the unit normal with (0,1,0) exceeds 0.99 (the normal is nearly
  parallel or nearly anti-parallel to it), and then it is (0,0,1). For every face with a
  unit normal the projected reference is therefore not the zero vector, before and after
  normalising, and its cross product with the normal is not the zero vector. The cross
  product from which the basis is built is \<open>faceUp \<times> n\<close>. For six sides, and for a
  face with fewer than three vertices of a die that has not ten sides, the face-up
  vector is the projected reference, and that cross product and the x axis are not zero.
  For ten sides they are not zero exactly when the direction from the centroid to the
  pole is not along the normal. For the other dice with at least three vertices they are
  not zero when no direction from the centroid to a vertex is along the normal, which
  holds when every vertex lies in the plane of the face and off the centroid.
\<close>

theorem faceSettleQuat_reference:
  assumes "vlength (normal face) = 1"
  shows "settleRef (normalize (normal face)) =
           (if \<bar>dot (normal face) (Vector3 0 1 0)\<bar> > 0.99 then Vector3 0 0 1 else Vector3 0 1 0) \<and>
         settleProjected (normalize (normal face)) \<noteq> Vector3 0 0 0 \<and>
         settleRefUp (normalize (normal face)) \<noteq> Vector3 0 0 0 \<and>
         crossVectors (settleRefUp (normalize (normal face))) (normalize (normal face)) \<noteq> Vector3 0 0 0 \<and>
         settleCross face sides = crossVectors (settleFaceUp face sides) (normal face) \<and>
         (sides = 6 \<or> (sides \<noteq> 10 \<and> length (verts face) < 3) \<longrightarrow>
            settleFaceUp face sides = settleRefUp (normalize (normal face)) \<and>
            settleCross face sides \<noteq> Vector3 0 0 0 \<and>
            normalize (settleCross face sides) \<noteq> Vector3 0 0 0) \<and>
         (sides = 10 \<longrightarrow>
            (settleCross face sides \<noteq> Vector3 0 0 0 \<and>
             normalize (settleCross face sides) \<noteq> Vector3 0 0 0) =
            (crossVectors
               (subVectors (if vy (centroid face) > 0 then Vector3 0 1.2 0 else Vector3 0 (- 1.2) 0)
                  (centroid face))
               (normal face) \<noteq> Vector3 0 0 0)) \<and>
         (sides \<noteq> 6 \<and> sides \<noteq> 10 \<and> length (verts face) \<ge> 3 \<and>
          (\<forall>v \<in> set (verts face).
             crossVectors (subVectors v (centroid face)) (normal face) \<noteq> Vector3 0 0 0) \<longrightarrow>
            settleCross face sides \<noteq> Vector3 0 0 0 \<and>
            normalize (settleCross face sides) \<noteq> Vector3 0 0 0) \<and>
         (sides \<noteq> 6 \<and> sides \<noteq> 10 \<and> length (verts face) \<ge> 3 \<and>
          (\<forall>v \<in> set (verts face).
             v \<noteq> centroid face \<and> dot (subVectors v (centroid face)) (normal face) = 0) \<longrightarrow>
            settleCross face sides \<noteq> Vector3 0 0 0 \<and>
            normalize (settleCross face sides) \<noteq> Vector3 0 0 0)"
proof -
  let ?n = "normalize (normal face)"
  have n: "?n = normal face" by (rule normalize_unit [OF assms])
  have u: "vlength ?n = 1" using assms n by simp
  have ref: "settleRef ?n =
      (if \<bar>dot (normal face) (Vector3 0 1 0)\<bar> > 0.99 then Vector3 0 0 1 else Vector3 0 1 0)"
    by (simp add: settleRef_def n)
  have proj: "settleProjected ?n \<noteq> Vector3 0 0 0" by (rule unit_facts(1) [OF u])
  then have up: "settleRefUp ?n \<noteq> Vector3 0 0 0" by (simp add: settleRefUp_def normalize_zero_iff)
  have cr: "crossVectors (settleRefUp ?n) ?n \<noteq> Vector3 0 0 0" by (rule refUp_cross_nonzero [OF u])
  have sc: "settleCross face sides = crossVectors (settleFaceUp face sides) (normal face)"
    by (simp add: settleCross_def n)
  have b6: "settleFaceUp face sides = settleRefUp ?n \<and> settleCross face sides \<noteq> Vector3 0 0 0 \<and>
        normalize (settleCross face sides) \<noteq> Vector3 0 0 0"
    if "sides = 6 \<or> (sides \<noteq> 10 \<and> length (verts face) < 3)"
  proof -
    from that have fu: "settleFaceUp face sides = settleRefUp ?n"
      by (auto simp: settleFaceUp_def faceUpOf_def Let_def)
    with cr have "settleCross face sides \<noteq> Vector3 0 0 0" by (simp add: settleCross_def)
    with fu show ?thesis by (simp add: normalize_zero_iff)
  qed
  have b10: "(settleCross face sides \<noteq> Vector3 0 0 0 \<and>
             normalize (settleCross face sides) \<noteq> Vector3 0 0 0) =
            (crossVectors
               (subVectors (if vy (centroid face) > 0 then Vector3 0 1.2 0 else Vector3 0 (- 1.2) 0)
                  (centroid face))
               (normal face) \<noteq> Vector3 0 0 0)"
    if "sides = 10"
    unfolding that normalize_zero_iff using settleCross_d10 [of face] by (simp only: n) simp
  have snap: "settleCross face sides \<noteq> Vector3 0 0 0 \<and>
        normalize (settleCross face sides) \<noteq> Vector3 0 0 0"
    if "sides \<noteq> 6" "sides \<noteq> 10" "length (verts face) \<ge> 3"
      "\<forall>v \<in> set (verts face).
         crossVectors (subVectors v (centroid face)) (normal face) \<noteq> Vector3 0 0 0"
  proof -
    from that(4) have "\<forall>v \<in> set (verts face).
        crossVectors (subVectors v (centroid face)) ?n \<noteq> Vector3 0 0 0" by (simp only: n)
    from settleCross_snap [OF that(1-3) this] show ?thesis by (simp add: normalize_zero_iff)
  qed
  have plane: "settleCross face sides \<noteq> Vector3 0 0 0 \<and>
        normalize (settleCross face sides) \<noteq> Vector3 0 0 0"
    if "sides \<noteq> 6" "sides \<noteq> 10" "length (verts face) \<ge> 3"
      "\<forall>v \<in> set (verts face).
         v \<noteq> centroid face \<and> dot (subVectors v (centroid face)) (normal face) = 0"
  proof -
    have "crossVectors (subVectors v (centroid face)) (normal face) \<noteq> Vector3 0 0 0"
      if "v \<in> set (verts face)" for v
    proof (rule in_plane_cross [OF assms])
      from \<open>\<forall>v \<in> set (verts face). v \<noteq> centroid face \<and> dot (subVectors v (centroid face)) (normal face) = 0\<close> that
      show "dot (subVectors v (centroid face)) (normal face) = 0"
        and "subVectors v (centroid face) \<noteq> Vector3 0 0 0"
        by (simp_all add: subVectors_zero_iff)
    qed
    then show ?thesis using snap [OF that(1-3)] by blast
  qed
  from ref proj up cr sc b6 b10 snap plane show ?thesis by blast
qed

theorem faceSettleQuat_reference_witness:
  "vlength (normal frontFace) = 1 \<and>
   settleRef (normalize (normal frontFace)) = Vector3 0 1 0 \<and>
   settleProjected (normalize (normal frontFace)) \<noteq> Vector3 0 0 0 \<and>
   settleFaceUp frontFace 6 = settleRefUp (normalize (normal frontFace)) \<and>
   settleCross frontFace 6 \<noteq> Vector3 0 0 0 \<and>
   vlength (normal kiteFace) = 1 \<and>
   crossVectors
     (subVectors (if vy (centroid kiteFace) > 0 then Vector3 0 1.2 0 else Vector3 0 (- 1.2) 0)
        (centroid kiteFace))
     (normal kiteFace) \<noteq> Vector3 0 0 0 \<and>
   settleCross kiteFace 10 \<noteq> Vector3 0 0 0 \<and>
   vlength (normal triFace) = 1 \<and> length (verts triFace) \<ge> 3 \<and>
   settleCross triFace 8 \<noteq> Vector3 0 0 0 \<and>
   normalize (settleCross triFace 8) \<noteq> Vector3 0 0 0"
proof -
  have h: "vlength (normal frontFace) = 1" by (simp add: frontFace_def mkFace_def vlength_def)
  have r: "settleRef (normalize (normal frontFace)) = Vector3 0 1 0"
    by (simp add: settleRef_def normalize_unit [OF h]) (simp add: frontFace_def mkFace_def dot_def)
  have k: "vlength (normal kiteFace) = 1" by (simp add: kiteFace_def mkFace_def vlength_def)
  have kc: "crossVectors
     (subVectors (if vy (centroid kiteFace) > 0 then Vector3 0 1.2 0 else Vector3 0 (- 1.2) 0)
        (centroid kiteFace))
     (normal kiteFace) \<noteq> Vector3 0 0 0"
    by (simp add: kiteFace_def mkFace_def subVectors_def crossVectors_def)
  have t: "vlength (normal triFace) = 1" by (simp add: triFace_def vlength_def)
  have tl: "length (verts triFace) \<ge> 3" by (simp add: triFace_def)
  have tv: "\<forall>v \<in> set (verts triFace).
      v \<noteq> centroid triFace \<and> dot (subVectors v (centroid triFace)) (normal triFace) = 0"
    by (simp add: triFace_def subVectors_def dot_def)
  have s8: "(8::int) \<noteq> 6" "(8::int) \<noteq> 10" by simp_all
  from faceSettleQuat_reference [OF h, of 6] h r
  have 1: "settleProjected (normalize (normal frontFace)) \<noteq> Vector3 0 0 0 \<and>
           settleFaceUp frontFace 6 = settleRefUp (normalize (normal frontFace)) \<and>
           settleCross frontFace 6 \<noteq> Vector3 0 0 0" by blast
  from faceSettleQuat_reference [OF k, of 10] kc
  have 2: "settleCross kiteFace 10 \<noteq> Vector3 0 0 0" by blast
  from faceSettleQuat_reference [OF t, of 8] tl tv s8
  have 3: "settleCross triFace 8 \<noteq> Vector3 0 0 0 \<and>
           normalize (settleCross triFace 8) \<noteq> Vector3 0 0 0" by blast
  from h r k kc t tl 1 2 3 show ?thesis by blast
qed

text \<open>
  C7 as stated fails three times. For the unit normal (0,-1,0) the dot product with
  (0,1,0) is -1, which is not above 0.99, and yet the reference is (0,0,1). For ten sides
  the face-up vector is the projected direction to the pole, not the projected reference:
  a face with a unit normal whose centroid is the pole itself gets the zero vector as its
  cross product. And for eight sides the face-up vector is the direction to a vertex: a
  face with a unit normal whose three vertices all lie on the normal through the centroid
  gets the zero vector as its cross product.
\<close>

theorem faceSettleQuat_reference_counterexample:
  "vlength (Vector3 0 (- 1) 0) = 1 \<and>
   \<not> dot (Vector3 0 (- 1) 0) (Vector3 0 1 0) > 0.99 \<and>
   settleRef (normalize (Vector3 0 (- 1) 0)) = Vector3 0 0 1 \<and>
   vlength (normal poleFace) = 1 \<and>
   settleCross poleFace 10 = Vector3 0 0 0 \<and>
   vlength (normal spikeFace) = 1 \<and> length (verts spikeFace) = 3 \<and>
   settleCross spikeFace 8 = Vector3 0 0 0"
proof -
  have u: "vlength (Vector3 0 (- 1) 0) = 1" by (simp add: vlength_def)
  have a: "settleRef (normalize (Vector3 0 (- 1) 0)) = Vector3 0 0 1"
    by (simp add: normalize_unit [OF u]) (simp add: settleRef_def dot_def)
  have p: "vlength (normal poleFace) = 1" by (simp add: poleFace_def mkFace_def vlength_def)
  have c: "settleCross poleFace 10 = Vector3 0 0 0"
    by (simp add: settleCross_def settleFaceUp_def faceUpOf_def normalize_unit [OF p])
       (simp add: poleFace_def mkFace_def subVectors_def addScaledVector_def dot_def normalize_def
          vlength_def negate_def crossVectors_def)
  have s: "vlength (normal spikeFace) = 1" by (simp add: spikeFace_def vlength_def)
  have sl: "length (verts spikeFace) = 3" by (simp add: spikeFace_def)
  have up: "normalize (Vector3 0 0 1) = Vector3 0 0 1" "normalize (Vector3 0 1 0) = Vector3 0 1 0"
    by (simp_all add: normalize_def vlength_def)
  have ru: "settleRefUp (Vector3 0 0 1) = Vector3 0 1 0"
    by (simp add: settleRefUp_def settleProjected_def settleRef_def dot_def addScaledVector_def up)
  have sc: "settleCross spikeFace 8 = Vector3 0 0 0"
    by (simp add: settleCross_def settleFaceUp_def faceUpOf_def normalize_unit [OF s] sl)
       (simp add: spikeFace_def ru subVectors_def up dot_def crossVectors_def Let_def)
  from u a p c s sl sc show ?thesis by (simp add: dot_def)
qed

section \<open>settleQuat and the object store\<close>

lemma snapLoopAt_frame:
  assumes "k \<le> length h"
  shows "take k (snd (snapLoopAt c r vs st h)) = take k h \<and>
         length h \<le> length (snd (snapLoopAt c r vs st h))"
  using assms
proof (induction vs arbitrary: st h)
  case Nil
  then show ?case by simp
next
  case (Cons v vs)
  obtain b fu where st: "st = (b, fu)" by (cases st)
  let ?h2 = "normalizeAt (length h) (subVectorsAt (length h) v c (h @ [Vector3 0 0 0]))"
  have len: "length ?h2 = Suc (length h)" by (simp add: normalizeAt_def subVectorsAt_def)
  have tk: "take k ?h2 = take k h" using Cons.prems by (simp add: normalizeAt_def subVectorsAt_def)
  from Cons.prems len have k: "k \<le> length ?h2" by simp
  from Cons.IH [OF k] tk len
  have "\<And>st'. take k (snd (snapLoopAt c r vs st' ?h2)) = take k h \<and>
             length h \<le> length (snd (snapLoopAt c r vs st' ?h2))"
    by (metis Suc_leD)
  then show ?case by (simp add: st newVector3_def Let_def)
qed

lemma snapLoopAt_value:
  assumes "c < length h" "r < length h" "fu < length h" "\<forall>v \<in> set vs. v < length h"
  shows "fst (fst (snapLoopAt c r vs (b, fu) h)) =
           fst (snapLoop (h ! c) (h ! r) (map (\<lambda>a. h ! a) vs) (b, h ! fu)) \<and>
         snd (snapLoopAt c r vs (b, fu) h) ! snd (fst (snapLoopAt c r vs (b, fu) h)) =
           snd (snapLoop (h ! c) (h ! r) (map (\<lambda>a. h ! a) vs) (b, h ! fu)) \<and>
         snd (fst (snapLoopAt c r vs (b, fu) h)) < length (snd (snapLoopAt c r vs (b, fu) h))"
  using assms
proof (induction vs arbitrary: b fu h)
  case Nil
  then show ?case by simp
next
  case (Cons v vs)
  let ?dir = "length h"
  let ?h2 = "normalizeAt ?dir (subVectorsAt ?dir v c (h @ [Vector3 0 0 0]))"
  have v: "v < length h" using Cons.prems(4) by simp
  have len: "length ?h2 = Suc (length h)" by (simp add: normalizeAt_def subVectorsAt_def)
  have old: "?h2 ! a = h ! a" if "a < length h" for a
    using that by (simp add: normalizeAt_def subVectorsAt_def nth_append)
  have new: "?h2 ! ?dir = normalize (subVectors (h ! v) (h ! c))"
    using v Cons.prems(1) by (simp add: normalizeAt_def subVectorsAt_def nth_append)
  have vs: "map (\<lambda>a. ?h2 ! a) vs = map (\<lambda>a. h ! a) vs"
    using Cons.prems(4) old by simp
  have rng: "c < length ?h2" "r < length ?h2" "fu < length ?h2" "?dir < length ?h2"
    "\<forall>v \<in> set vs. v < length ?h2"
    using Cons.prems len by auto
  let ?d = "dot (normalize (subVectors (h ! v) (h ! c))) (h ! r)"
  let ?go = "case b of None \<Rightarrow> True | Some b' \<Rightarrow> ?d > b'"
  have dd: "dot (?h2 ! ?dir) (?h2 ! r) = ?d" by (simp only: new old [OF Cons.prems(2)])
  have stepAt: "snapLoopAt c r (v # vs) (b, fu) h =
      (if ?go then snapLoopAt c r vs (Some ?d, ?dir) ?h2 else snapLoopAt c r vs (b, fu) ?h2)"
    unfolding snapLoopAt.simps newVector3_def Let_def split dd ..
  have step: "snapLoop (h ! c) (h ! r) (map (\<lambda>a. h ! a) (v # vs)) (b, h ! fu) =
      (if ?go then snapLoop (h ! c) (h ! r) (map (\<lambda>a. h ! a) vs) (Some ?d, normalize (subVectors (h ! v) (h ! c)))
       else snapLoop (h ! c) (h ! r) (map (\<lambda>a. h ! a) vs) (b, h ! fu))"
    by (simp add: Let_def)
  show ?case
  proof (cases ?go)
    case True
    from Cons.IH [OF rng(1,2,4,5), of "Some ?d"]
    show ?thesis
      unfolding stepAt step if_P [OF True] vs old [OF Cons.prems(1)] old [OF Cons.prems(2)] new .
  next
    case False
    from Cons.IH [OF rng(1,2,3,5), of b]
    show ?thesis
      unfolding stepAt step if_not_P [OF False] vs old [OF Cons.prems(1)] old [OF Cons.prems(2)]
        old [OF Cons.prems(3)] .
  qed
qed

lemma extends_refl: "extends h h"
  by (simp add: extends_def)

lemma extends_trans: "extends h h' \<Longrightarrow> extends h' h'' \<Longrightarrow> extends h h''"
proof -
  assume a: "extends h h'" and b: "extends h' h''"
  from a have l1: "length h \<le> length h'" and t1: "take (length h) h' = h" by (simp_all add: extends_def)
  from b have l2: "length h' \<le> length h''" and t2: "take (length h') h'' = h'" by (simp_all add: extends_def)
  have "take (length h) h'' = take (length h) (take (length h') h'')"
    using l1 by (simp add: min_def)
  also have "\<dots> = h" by (simp only: t2 t1)
  finally show ?thesis using l1 l2 by (simp add: extends_def)
qed

lemma extends_nth: "extends h h' \<Longrightarrow> a < length h \<Longrightarrow> h' ! a = h ! a"
proof -
  assume a: "extends h h'" and b: "a < length h"
  from a have t: "take (length h) h' = h" by (simp add: extends_def)
  from b have "take (length h) h' ! a = h' ! a" by simp
  with t show ?thesis by simp
qed

lemma extends_length: "extends h h' \<Longrightarrow> a < length h \<Longrightarrow> a < length h'"
  unfolding extends_def by simp

lemma extends_new: "extends h (h @ [v])"
  by (simp add: extends_def)

lemma extends_update: "length h \<le> a \<Longrightarrow> extends h h' \<Longrightarrow> extends h (h'[a := v])"
  by (simp add: extends_def)


lemma settleNormalAt_eq:
  "settleNormalAt f h = (length h, h @ [normalize (h ! normalAt f)])"
  by (simp add: settleNormalAt_def clone_def newVector3_def normalizeAt_def)

lemma settleRefAt_eq:
  "n < length h \<Longrightarrow> settleRefAt n h =
     (if \<bar>dot (h ! n) (Vector3 0 1 0)\<bar> > 0.99
      then (Suc (length h), h @ [Vector3 0 1 0, Vector3 0 0 1])
      else (length h, h @ [Vector3 0 1 0]))"
  by (simp add: settleRefAt_def newVector3_def nth_append)

lemma settleRefUpAt_eq:
  "n < length h \<Longrightarrow> ref < length h \<Longrightarrow> settleRefUpAt n ref h =
     (length h, h @ [normalize (addScaledVector (h ! ref) (h ! n) (- dot (h ! ref) (h ! n)))])"
  by (simp add: settleRefUpAt_def clone_def newVector3_def normalizeAt_def addScaledVectorAt_def
      nth_append)


lemma settleFaceUpAt_d10:
  assumes "n < length h" "centroidAt f < length h"
  shows "settleFaceUpAt f 10 n refUp h =
     (let pole = (if vy (h ! centroidAt f) > 0 then Vector3 0 1.2 0 else Vector3 0 (- 1.2) 0);
          toPole = subVectors pole (h ! centroidAt f)
      in (Suc (length h),
          h @ [pole, negate (normalize (addScaledVector toPole (h ! n) (- dot toPole (h ! n))))]))"
  using assms
  by (simp add: settleFaceUpAt_def newVector3_def normalizeAt_def addScaledVectorAt_def
      subVectorsAt_def negateAt_def nth_append Let_def)

lemma extends_snapLoopAt: "extends h (snd (snapLoopAt c r vs st h))"
  using snapLoopAt_frame [of "length h" h c r vs st] by (simp add: extends_def)

lemma settleFaceUpAt_spec:
  assumes v: "validFace h f" and n: "n < length h" and r: "refUp < length h"
  shows "extends h (snd (settleFaceUpAt f sides n refUp h))"
    and "fst (settleFaceUpAt f sides n refUp h) < length (snd (settleFaceUpAt f sides n refUp h))"
    and "snd (settleFaceUpAt f sides n refUp h) ! fst (settleFaceUpAt f sides n refUp h) =
           faceUpOf (faceAt h f) sides (h ! n) (h ! refUp)"
proof -
  from v have c: "centroidAt f < length h" and vs: "\<forall>a \<in> set (vertsAt f). a < length h"
    by (simp_all add: validFace_def list_all_iff)
  let ?R = "settleFaceUpAt f sides n refUp h"
  have "extends h (snd ?R) \<and> fst ?R < length (snd ?R) \<and>
        snd ?R ! fst ?R = faceUpOf (faceAt h f) sides (h ! n) (h ! refUp)"
  proof (cases "sides = 10")
    case True
    show ?thesis
      unfolding True settleFaceUpAt_d10 [OF n c]
      by (simp add: Let_def extends_def faceUpOf_def faceAt_def nth_append)
  next
    case ten: False
    show ?thesis
    proof (cases "sides \<noteq> 6 \<and> length (vertsAt f) \<ge> 3")
      case True
      let ?L = "snapLoopAt (centroidAt f) refUp (vertsAt f) (None, refUp) h"
      have R: "?R = (snd (fst ?L), snd ?L)"
        using ten True by (simp add: settleFaceUpAt_def split_def Let_def)
      from snapLoopAt_value [OF c r r vs, of None] extends_snapLoopAt [of h "centroidAt f" refUp "vertsAt f" "(None, refUp)"]
      show ?thesis
        unfolding R using ten True by (simp add: faceUpOf_def faceAt_def)
    next
      case False
      with ten have "?R = (refUp, h)" by (auto simp: settleFaceUpAt_def)
      with ten False r show ?thesis by (auto simp: faceUpOf_def faceAt_def extends_refl)
    qed
  qed
  then show "extends h (snd ?R)" and "fst ?R < length (snd ?R)"
    and "snd ?R ! fst ?R = faceUpOf (faceAt h f) sides (h ! n) (h ! refUp)" by simp_all
qed


lemma settleNormalAt_spec:
  "extends h (snd (settleNormalAt f h))"
  "fst (settleNormalAt f h) < length (snd (settleNormalAt f h))"
  "snd (settleNormalAt f h) ! fst (settleNormalAt f h) = normalize (h ! normalAt f)"
  by (simp_all add: settleNormalAt_eq extends_def)

lemma settleRefAt_spec:
  assumes "n < length h"
  shows "extends h (snd (settleRefAt n h))"
    "fst (settleRefAt n h) < length (snd (settleRefAt n h))"
    "snd (settleRefAt n h) ! fst (settleRefAt n h) = settleRef (h ! n)"
  by (simp_all add: settleRefAt_eq [OF assms] extends_def settleRef_def nth_append)

lemma settleRefUpAt_spec:
  assumes "n < length h" "ref < length h"
  shows "extends h (snd (settleRefUpAt n ref h))"
    "fst (settleRefUpAt n ref h) < length (snd (settleRefUpAt n ref h))"
    "snd (settleRefUpAt n ref h) ! fst (settleRefUpAt n ref h) =
       normalize (addScaledVector (h ! ref) (h ! n) (- dot (h ! ref) (h ! n)))"
  by (simp_all add: settleRefUpAt_eq [OF assms] extends_def)

lemma validFace_extends: "validFace h f \<Longrightarrow> extends h h' \<Longrightarrow> validFace h' f"
  by (auto simp: validFace_def extends_def list_all_iff)

lemma faceAt_extends: "validFace h f \<Longrightarrow> extends h h' \<Longrightarrow> faceAt h' f = faceAt h f"
  by (simp add: validFace_def faceAt_def list_all_iff extends_nth)

lemma faceSettleQuatAt_refines:
  assumes v: "validFace h0 f"
  shows "fst (faceSettleQuatAt F f sides h0) = faceSettleQuat F (faceAt h0 f) sides"
    and "extends h0 (snd (faceSettleQuatAt F f sides h0))"
proof -
  define n where "n = fst (settleNormalAt f h0)"
  define h1 where "h1 = snd (settleNormalAt f h0)"
  define ref where "ref = fst (settleRefAt n h1)"
  define h2 where "h2 = snd (settleRefAt n h1)"
  define refUp where "refUp = fst (settleRefUpAt n ref h2)"
  define h3 where "h3 = snd (settleRefUpAt n ref h2)"
  define faceUp where "faceUp = fst (settleFaceUpAt f sides n refUp h3)"
  define h4 where "h4 = snd (settleFaceUpAt f sides n refUp h3)"
  define xAxis where "xAxis = length h4"
  define h6 where "h6 = normalizeAt xAxis (crossVectorsAt xAxis faceUp n (h4 @ [Vector3 0 0 0]))"
  have run: "faceSettleQuatAt F f sides h0 = (F (h6 ! xAxis) (h6 ! faceUp) (h6 ! n), h6)"
    by (simp add: faceSettleQuatAt_def split_def Let_def newVector3_def n_def h1_def ref_def h2_def
        refUp_def h3_def faceUp_def h4_def xAxis_def h6_def)
  let ?nv = "normalize (normal (faceAt h0 f))"
  from v have na: "normalAt f < length h0" by (simp add: validFace_def)
  \<comment> \<open>stage 1\<close>
  have e1: "extends h0 h1" and n1: "n < length h1" and nv1: "h1 ! n = ?nv"
    using settleNormalAt_spec [where h = h0 and f = f] na by (simp_all add: n_def h1_def faceAt_def)
  \<comment> \<open>stage 2\<close>
  have e2: "extends h1 h2" and r2: "ref < length h2" and rv2: "h2 ! ref = settleRef ?nv"
    using settleRefAt_spec [OF n1] nv1 by (simp_all add: ref_def h2_def)
  have n2: "n < length h2" and nv2: "h2 ! n = ?nv"
    using extends_length [OF e2 n1] extends_nth [OF e2 n1] nv1 by simp_all
  \<comment> \<open>stage 3\<close>
  have e3: "extends h2 h3" and u3: "refUp < length h3" and uv3: "h3 ! refUp = settleRefUp ?nv"
    using settleRefUpAt_spec [OF n2 r2] nv2 rv2
    by (simp_all add: refUp_def h3_def settleRefUp_def settleProjected_def)
  have n3: "n < length h3" and nv3: "h3 ! n = ?nv"
    using extends_length [OF e3 n2] extends_nth [OF e3 n2] nv2 by simp_all
  have e03: "extends h0 h3" by (rule extends_trans [OF extends_trans [OF e1 e2] e3])
  have v3: "validFace h3 f" by (rule validFace_extends [OF v e03])
  have f3: "faceAt h3 f = faceAt h0 f" by (rule faceAt_extends [OF v e03])
  \<comment> \<open>stage 4\<close>
  have e4: "extends h3 h4" and fu4: "faceUp < length h4"
    and fv4: "h4 ! faceUp = settleFaceUp (faceAt h0 f) sides"
    using settleFaceUpAt_spec [OF v3 n3 u3, of sides] nv3 uv3 f3
    by (simp_all add: faceUp_def h4_def settleFaceUp_def Let_def)
  have n4: "n < length h4" and nv4: "h4 ! n = ?nv"
    using extends_length [OF e4 n3] extends_nth [OF e4 n3] nv3 by simp_all
  \<comment> \<open>the basis\<close>
  have x: "h6 ! xAxis = normalize (settleCross (faceAt h0 f) sides)"
    using fu4 n4 fv4 nv4
    by (simp add: h6_def xAxis_def normalizeAt_def crossVectorsAt_def nth_append settleCross_def)
  have fu6: "h6 ! faceUp = settleFaceUp (faceAt h0 f) sides"
    using fu4 fv4 by (simp add: h6_def xAxis_def normalizeAt_def crossVectorsAt_def nth_append)
  have n6: "h6 ! n = ?nv"
    using n4 nv4 by (simp add: h6_def xAxis_def normalizeAt_def crossVectorsAt_def nth_append)
  have e46: "extends h4 h6"
    by (simp add: h6_def xAxis_def normalizeAt_def crossVectorsAt_def extends_def)
  show "fst (faceSettleQuatAt F f sides h0) = faceSettleQuat F (faceAt h0 f) sides"
    by (simp add: run x fu6 n6 faceSettleQuat_def Let_def)
  show "extends h0 (snd (faceSettleQuatAt F f sides h0))"
    unfolding run snd_conv by (rule extends_trans [OF extends_trans [OF e03 e4] e46])
qed

lemma settleFaceUpAt_frame: "extends h (snd (settleFaceUpAt f sides n refUp h))"
proof (cases "sides = 10")
  case True
  show ?thesis
    unfolding True
    by (simp add: settleFaceUpAt_def newVector3_def normalizeAt_def addScaledVectorAt_def
        subVectorsAt_def negateAt_def Let_def extends_def)
next
  case ten: False
  show ?thesis
  proof (cases "sides \<noteq> 6 \<and> length (vertsAt f) \<ge> 3")
    case True
    with ten show ?thesis
      using extends_snapLoopAt [of h "centroidAt f" refUp "vertsAt f" "(None, refUp)"]
      by (simp add: settleFaceUpAt_def split_def Let_def)
  next
    case False
    with ten show ?thesis by (auto simp: settleFaceUpAt_def extends_refl)
  qed
qed

lemma faceSettleQuatAt_frame: "extends h0 (snd (faceSettleQuatAt F f sides h0))"
proof -
  define n where "n = fst (settleNormalAt f h0)"
  define h1 where "h1 = snd (settleNormalAt f h0)"
  define ref where "ref = fst (settleRefAt n h1)"
  define h2 where "h2 = snd (settleRefAt n h1)"
  define refUp where "refUp = fst (settleRefUpAt n ref h2)"
  define h3 where "h3 = snd (settleRefUpAt n ref h2)"
  define faceUp where "faceUp = fst (settleFaceUpAt f sides n refUp h3)"
  define h4 where "h4 = snd (settleFaceUpAt f sides n refUp h3)"
  define xAxis where "xAxis = length h4"
  define h6 where "h6 = normalizeAt xAxis (crossVectorsAt xAxis faceUp n (h4 @ [Vector3 0 0 0]))"
  have run: "snd (faceSettleQuatAt F f sides h0) = h6"
    by (simp add: faceSettleQuatAt_def split_def Let_def newVector3_def n_def h1_def ref_def h2_def
        refUp_def h3_def faceUp_def h4_def xAxis_def h6_def)
  have e1: "extends h0 h1" and n1: "n < length h1"
    using settleNormalAt_spec(1,2) [where h = h0 and f = f] by (simp_all add: n_def h1_def)
  have e2: "extends h1 h2" and r2: "ref < length h2"
    using settleRefAt_spec(1,2) [OF n1] by (simp_all add: ref_def h2_def)
  have n2: "n < length h2" by (rule extends_length [OF e2 n1])
  have e3: "extends h2 h3" using settleRefUpAt_spec(1) [OF n2 r2] by (simp add: h3_def refUp_def)
  have e4: "extends h3 h4" unfolding h4_def by (rule settleFaceUpAt_frame)
  have e46: "extends h4 h6"
    by (simp add: h6_def xAxis_def normalizeAt_def crossVectorsAt_def extends_def)
  show ?thesis
    unfolding run
    by (rule extends_trans [OF extends_trans [OF extends_trans [OF extends_trans [OF e1 e2] e3] e4] e46])
qed

lemma normalize_axis:
  "normalize (Vector3 0 0 1) = Vector3 0 0 1" "normalize (Vector3 0 1 0) = Vector3 0 1 0"
  "normalize (Vector3 1 0 0) = Vector3 1 0 0"
  by (simp_all add: normalize_def vlength_def)

lemma front_run:
  "faceSettleQuatAt basisTriple frontRef 6 frontStore =
     ((Vector3 1 0 0, Vector3 0 1 0, Vector3 0 0 1),
      frontStore @ [Vector3 0 0 1, Vector3 0 1 0, Vector3 0 1 0, Vector3 1 0 0])"
proof -
  let ?h1 = "[Vector3 0 0 2, Vector3 0 0 1, Vector3 0 0 1]"
  let ?h2 = "[Vector3 0 0 2, Vector3 0 0 1, Vector3 0 0 1, Vector3 0 1 0]"
  let ?h3 = "[Vector3 0 0 2, Vector3 0 0 1, Vector3 0 0 1, Vector3 0 1 0, Vector3 0 1 0]"
  have s1: "settleNormalAt frontRef frontStore = (2, ?h1)"
    by (simp add: settleNormalAt_eq frontRef_def frontStore_def normalize_axis)
  have s2: "settleRefAt 2 ?h1 = (3, ?h2)"
    by (simp add: settleRefAt_eq dot_def)
  have s3: "settleRefUpAt 2 3 ?h2 = (4, ?h3)"
    by (simp add: settleRefUpAt_eq dot_def addScaledVector_def normalize_axis)
  have s4: "settleFaceUpAt frontRef 6 2 4 ?h3 = (4, ?h3)"
    by (simp add: settleFaceUpAt_def)
  show ?thesis
    by (simp add: faceSettleQuatAt_def s1 s2 s3 s4 newVector3_def basisTriple_def)
       (simp add: normalizeAt_def crossVectorsAt_def crossVectors_def normalize_axis Let_def
          frontStore_def)
qed

lemma tableLoop_dom: "dom (tableLoop nums idx m) = dom m \<union> real_of_int ` set nums"
  by (induction nums arbitrary: idx m) auto

lemma numberToFaceOf_absent:
  assumes "\<forall>x \<in> set nums. 1 \<le> x \<and> x \<le> sides" "result \<le> 0 \<or> result > real_of_int sides"
  shows "numberToFaceOf nums result = None"
proof -
  have "result \<notin> real_of_int ` set nums"
  proof
    assume "result \<in> real_of_int ` set nums"
    then obtain x where x: "x \<in> set nums" "result = real_of_int x" by blast
    with assms(1) have "1 \<le> x" "x \<le> sides" by auto
    with x(2) assms(2) show False by auto
  qed
  then have "result \<notin> dom (numberToFaceOf nums)"
    by (simp add: numberToFaceOf_def tableLoop_dom)
  then show ?thesis by blast
qed

lemma settleQuat_frame:
  assumes "settleQuat F mesh result sides h = Inr (r, h')"
  shows "extends h h'"
proof -
  have *: "extends h (snd (faceSettleQuatAt F f sides h))" for f
    by (rule faceSettleQuatAt_frame)
  from assms show ?thesis
    by (auto simp: settleQuat_def extends_refl split_def Let_def * split: option.splits if_splits)
qed

lemma settleQuat_error:
  "settleQuat F mesh result sides h = Inl e \<longleftrightarrow>
     (\<exists>faces ntf fi. ud_faces mesh = Some faces \<and> ud_numberToFace mesh = Some ntf \<and>
        ntf result = Some fi \<and> 0 \<le> fi \<and> fi < real (length faces) \<and> of_int \<lfloor>fi\<rfloor> \<noteq> fi)"
  by (cases e) (auto simp: settleQuat_def split_def Let_def split: option.splits)

text \<open>
  The rotation that \<open>settleQuat\<close> returns is the one the value-level definitions give for
  the face as the store holds it.
\<close>

lemma settleQuat_rotation:
  assumes "ud_faces mesh = Some faces" "ud_numberToFace mesh = Some ntf" "ntf result = Some (real i)"
    and "i < length faces" "validFace h (faces ! i)"
  shows "\<exists>h'. settleQuat F mesh result sides h =
           Inr (Some (faceSettleQuat F (faceAt h (faces ! i)) sides), h')"
  using assms faceSettleQuatAt_refines(1) [OF assms(5), of F sides]
  by (simp add: settleQuat_def split_def Let_def)

text \<open>
  C6: \<open>settleQuat\<close> returns \<open>null\<close>, without an error and with the store as it was, when
  the mesh has no \<open>faces\<close> or no \<open>numberToFace\<close>, or when the requested value has no
  entry in \<open>numberToFace\<close> or an entry that is not an index of \<open>faces\<close>; for a table
  that \<open>buildDieMesh\<close> made from numbers in 1..sides the value 0 and every value above
  sides have no entry. And whenever \<open>settleQuat\<close> returns a rotation, every vector that
  was in the store is unchanged: the call only adds vectors.
\<close>

theorem settleQuat_absent:
  "(ud_faces mesh = None \<or> ud_numberToFace mesh = None \<or>
      (\<exists>ntf. ud_numberToFace mesh = Some ntf \<and> ntf result = None) \<or>
      (\<exists>faces ntf fi. ud_faces mesh = Some faces \<and> ud_numberToFace mesh = Some ntf \<and>
         ntf result = Some fi \<and> (fi < 0 \<or> fi \<ge> real (length faces))) \<longrightarrow>
      settleQuat F mesh result sides h = Inr (None, h)) \<and>
   (\<forall>nums. ud_numberToFace mesh = Some (numberToFaceOf nums) \<and>
      (\<forall>x \<in> set nums. 1 \<le> x \<and> x \<le> sides) \<and> (result \<le> 0 \<or> result > real_of_int sides) \<longrightarrow>
      settleQuat F mesh result sides h = Inr (None, h)) \<and>
   (\<forall>q h'. settleQuat F mesh result sides h = Inr (Some q, h') \<longrightarrow> extends h h')"
proof -
  have a: "settleQuat F mesh result sides h = Inr (None, h)"
    if "ud_faces mesh = None \<or> ud_numberToFace mesh = None \<or>
        (\<exists>ntf. ud_numberToFace mesh = Some ntf \<and> ntf result = None) \<or>
        (\<exists>faces ntf fi. ud_faces mesh = Some faces \<and> ud_numberToFace mesh = Some ntf \<and>
           ntf result = Some fi \<and> (fi < 0 \<or> fi \<ge> real (length faces)))"
    using that by (auto simp: settleQuat_def split: option.splits)
  have b: "settleQuat F mesh result sides h = Inr (None, h)"
    if "ud_numberToFace mesh = Some (numberToFaceOf nums)"
      "\<forall>x \<in> set nums. 1 \<le> x \<and> x \<le> sides" "result \<le> 0 \<or> result > real_of_int sides" for nums
    using a numberToFaceOf_absent [OF that(2,3)] that(1) by blast
  from a b settleQuat_frame [of F mesh result sides h] show ?thesis by blast
qed

lemma labelled_table: "numberToFaceOf [1] = [1 \<mapsto> 0]"
  by (simp add: numberToFaceOf_def)

theorem settleQuat_absent_witness:
  "ud_faces unlabelledData = None \<and>
   settleQuat basisTriple unlabelledData 3 20 frontStore = Inr (None, frontStore) \<and>
   ud_numberToFace labelledData = Some (numberToFaceOf [1]) \<and>
   numberToFaceOf [1] 0 = None \<and>
   settleQuat basisTriple labelledData 0 6 frontStore = Inr (None, frontStore) \<and>
   settleQuat basisTriple labelledData 1 6 frontStore =
     Inr (Some (Vector3 1 0 0, Vector3 0 1 0, Vector3 0 0 1),
          frontStore @ [Vector3 0 0 1, Vector3 0 1 0, Vector3 0 1 0, Vector3 1 0 0]) \<and>
   extends frontStore (frontStore @ [Vector3 0 0 1, Vector3 0 1 0, Vector3 0 1 0, Vector3 1 0 0])"
proof -
  have u: "ud_faces unlabelledData = None" by (simp add: unlabelledData_def)
  have l: "ud_numberToFace labelledData = Some (numberToFaceOf [1])" by (simp add: labelledData_def)
  have z: "numberToFaceOf [1] 0 = None" by (simp add: labelled_table)
  have r: "settleQuat basisTriple labelledData 1 6 frontStore =
     Inr (Some (Vector3 1 0 0, Vector3 0 1 0, Vector3 0 0 1),
          frontStore @ [Vector3 0 0 1, Vector3 0 1 0, Vector3 0 1 0, Vector3 1 0 0])"
    by (simp add: settleQuat_def labelledData_def labelled_table front_run)
  from settleQuat_absent [of unlabelledData 3 basisTriple 20 frontStore] u
  have 1: "settleQuat basisTriple unlabelledData 3 20 frontStore = Inr (None, frontStore)" by blast
  from settleQuat_absent [of labelledData 0 basisTriple 6 frontStore] l z
  have 2: "settleQuat basisTriple labelledData 0 6 frontStore = Inr (None, frontStore)" by blast
  from settleQuat_absent [of labelledData 1 basisTriple 6 frontStore] r
  have 3: "extends frontStore (frontStore @ [Vector3 0 0 1, Vector3 0 1 0, Vector3 0 1 0, Vector3 1 0 0])"
    by blast
  from u l z r 1 2 3 show ?thesis by blast
qed

section \<open>The kites of the ten-sided die are planar\<close>

lemma cos_step: "cos (x + 2 * d) = 2 * cos (x + d) * cos d - cos x" for x d :: real
proof -
  have "cos (x + 2 * d) = cos ((x + d) + d)" by (simp add: algebra_simps)
  also have "\<dots> = cos (x + d) * cos d - sin (x + d) * sin d" by (rule cos_add)
  finally have a: "cos (x + 2 * d) = cos (x + d) * cos d - sin (x + d) * sin d" .
  have "cos x = cos ((x + d) - d)" by simp
  also have "\<dots> = cos (x + d) * cos d + sin (x + d) * sin d" by (rule cos_diff)
  finally have b: "cos x = cos (x + d) * cos d + sin (x + d) * sin d" .
  from a b show ?thesis by simp
qed

lemma sin_step: "sin (x + 2 * d) = 2 * sin (x + d) * cos d - sin x" for x d :: real
proof -
  have "sin (x + 2 * d) = sin ((x + d) + d)" by (simp add: algebra_simps)
  also have "\<dots> = sin (x + d) * cos d + cos (x + d) * sin d" by (rule sin_add)
  finally have a: "sin (x + 2 * d) = sin (x + d) * cos d + cos (x + d) * sin d" .
  have "sin x = sin ((x + d) - d)" by simp
  also have "\<dots> = sin (x + d) * cos d - cos (x + d) * sin d" by (rule sin_diff)
  finally have b: "sin x = sin (x + d) * cos d - cos (x + d) * sin d" .
  from a b show ?thesis by simp
qed

text \<open>The angle of the next ring vertex, with the wrap from 4 to 0.\<close>

lemma next_angle:
  assumes "k < 5"
  shows "cos ((real ((k + 1) mod 5) * 2 * pi) / 5) = cos ((real k * 2 * pi) / 5 + 2 * (pi / 5))"
    and "sin ((real ((k + 1) mod 5) * 2 * pi) / 5) = sin ((real k * 2 * pi) / 5 + 2 * (pi / 5))"
proof -
  from assms consider "k = 0" | "k = 1" | "k = 2" | "k = 3" | "k = 4" by linarith
  then have "cos ((real ((k + 1) mod 5) * 2 * pi) / 5) = cos ((real k * 2 * pi) / 5 + 2 * (pi / 5)) \<and>
             sin ((real ((k + 1) mod 5) * 2 * pi) / 5) = sin ((real k * 2 * pi) / 5 + 2 * (pi / 5))"
  proof cases
    case 5
    have "(real 4 * 2 * pi) / 5 + 2 * (pi / 5) = 2 * pi" by simp
    with 5 show ?thesis by simp
  qed (simp_all add: algebra_simps)
  then show "cos ((real ((k + 1) mod 5) * 2 * pi) / 5) = cos ((real k * 2 * pi) / 5 + 2 * (pi / 5))"
    and "sin ((real ((k + 1) mod 5) * 2 * pi) / 5) = sin ((real k * 2 * pi) / 5 + 2 * (pi / 5))"
    by simp_all
qed

lemma next_angle_lower:
  assumes "k < 5"
  shows "cos ((real ((k + 1) mod 5) * 2 * pi) / 5 + pi / 5) = cos (((real k * 2 * pi) / 5 + pi / 5) + 2 * (pi / 5))"
    and "sin ((real ((k + 1) mod 5) * 2 * pi) / 5 + pi / 5) = sin (((real k * 2 * pi) / 5 + pi / 5) + 2 * (pi / 5))"
proof -
  from assms consider "k = 0" | "k = 1" | "k = 2" | "k = 3" | "k = 4" by linarith
  then have "cos ((real ((k + 1) mod 5) * 2 * pi) / 5 + pi / 5) = cos (((real k * 2 * pi) / 5 + pi / 5) + 2 * (pi / 5)) \<and>
             sin ((real ((k + 1) mod 5) * 2 * pi) / 5 + pi / 5) = sin (((real k * 2 * pi) / 5 + pi / 5) + 2 * (pi / 5))"
  proof cases
    case 5
    from 5 have l: "(real ((k + 1) mod 5) * 2 * pi) / 5 + pi / 5 = pi / 5" by simp
    from 5 have r: "((real k * 2 * pi) / 5 + pi / 5) + 2 * (pi / 5) = pi / 5 + 2 * pi" by simp
    show ?thesis unfolding l r by (simp only: cos_periodic sin_periodic)
  qed (simp_all add: algebra_simps)
  then show "cos ((real ((k + 1) mod 5) * 2 * pi) / 5 + pi / 5) = cos (((real k * 2 * pi) / 5 + pi / 5) + 2 * (pi / 5))"
    and "sin ((real ((k + 1) mod 5) * 2 * pi) / 5 + pi / 5) = sin (((real k * 2 * pi) / 5 + pi / 5) + 2 * (pi / 5))"
    by simp_all
qed

lemma kite_cross_top:
  "crossVectors (Vector3 lx (- s) lz) (Vector3 ux (- (c * s)) uz) =
   crossVectors (Vector3 (2 * c * lx - ux) (- (c * s)) (2 * c * lz - uz)) (Vector3 lx (- s) lz)"
  by (simp add: crossVectors_def algebra_simps)

lemma kite_cross_bottom:
  "crossVectors (Vector3 lx (c * s) lz) (Vector3 ux s uz) =
   crossVectors (Vector3 ux s uz) (Vector3 (2 * c * ux - lx) (c * s) (2 * c * uz - lz))"
  by (simp add: crossVectors_def algebra_simps)

lemma concat_blocks_length:
  assumes "\<And>i. i < n \<Longrightarrow> length (f i) = m"
  shows "length (concat (map f [0..<n])) = n * m"
  using assms by (induction n) simp_all

lemma concat_blocks_nth:
  assumes "\<And>i. i < n \<Longrightarrow> length (f i) = m" "k < n" "j < m"
  shows "concat (map f [0..<n]) ! (k * m + j) = f k ! j"
  using assms
proof (induction n)
  case 0
  then show ?case by simp
next
  case (Suc n)
  have len: "length (concat (map f [0..<n])) = n * m"
    by (rule concat_blocks_length) (simp add: Suc.prems(1))
  show ?case
  proof (cases "k < n")
    case True
    then have "k * m + j < n * m"
    proof -
      from True have "Suc k \<le> n" by simp
      then have "Suc k * m \<le> n * m" by (rule mult_le_mono1)
      with Suc.prems(3) show ?thesis by simp
    qed
    with len Suc.IH [OF _ True Suc.prems(3)] Suc.prems(1) show ?thesis
      by (simp add: nth_append)
  next
    case False
    with Suc.prems(2) have "k = n" by simp
    with len Suc.prems show ?thesis by (simp add: nth_append)
  qed
qed

lemma createD10Geometry_blocks:
  "createD10Geometry radius = concat (map (d10Block radius) [0..<5])"
  by (simp add: createD10Geometry_def d10Block_def [abs_def] Let_def)

lemma length_d10Block: "length (d10Block radius k) = 12"
  by (simp add: d10Block_def Let_def)

lemma createD10Geometry_length: "length (createD10Geometry radius) = 60"
  unfolding createD10Geometry_blocks
  using concat_blocks_length [of 5 "d10Block radius" 12] by (simp add: length_d10Block)

lemma createD10Geometry_nth:
  assumes "k < 5" "j < 12"
  shows "createD10Geometry radius ! (k * 12 + j) = d10Block radius k ! j"
  unfolding createD10Geometry_blocks
  by (rule concat_blocks_nth [OF length_d10Block assms])

lemma d10Upper_nth:
  "k < 5 \<Longrightarrow> d10Upper radius ! k =
     Vector3 (radius * 0.85 * cos ((real k * 2 * pi) / 5)) (d10RingHeight radius)
       (radius * 0.85 * sin ((real k * 2 * pi) / 5))"
  by (simp add: d10Upper_def Let_def)

lemma d10Lower_nth:
  "k < 5 \<Longrightarrow> d10Lower radius ! k =
     Vector3 (radius * 0.85 * cos ((real k * 2 * pi) / 5 + pi / 5)) (- d10RingHeight radius)
       (radius * 0.85 * sin ((real k * 2 * pi) / 5 + pi / 5))"
  by (simp add: d10Lower_def Let_def)

lemma cos36_pos: "0 < cos (pi / 5)"
proof (rule cos_gt_zero_pi)
  show "- (pi / 2) < pi / 5" using pi_gt_zero by linarith
  show "pi / 5 < pi / 2" using pi_gt_zero by linarith
qed

lemma sin36_pos: "0 < sin (pi / 5)"
proof (rule sin_gt_zero)
  show "0 < pi / 5" using pi_gt_zero by linarith
  show "pi / 5 < pi" using pi_gt_zero by linarith
qed

text \<open>The planarity condition in the form the cross products use.\<close>

lemma ring_height:
  "cos (pi / 5) * (d10RingHeight radius + radius) = radius - d10RingHeight radius"
proof -
  have "1 + cos (pi / 5) \<noteq> 0" using cos36_pos by simp
  then show ?thesis by (simp add: d10RingHeight_def field_simps)
qed

lemma tri_block:
  assumes "k < 5" "i < 4"
  shows "triNormal (createD10Geometry radius) (4 * k + i) =
           crossVectors
             (subVectors (d10Block radius k ! (3 * i + 1)) (d10Block radius k ! (3 * i)))
             (subVectors (d10Block radius k ! (3 * i + 2)) (d10Block radius k ! (3 * i)))"
proof -
  from assms(2) have j: "3 * i < 12" "3 * i + 1 < 12" "3 * i + 2 < 12" by simp_all
  have e0: "(4 * k + i) * 3 = k * 12 + 3 * i" by simp
  have e1: "(4 * k + i) * 3 + 1 = k * 12 + (3 * i + 1)" by simp
  have e2: "(4 * k + i) * 3 + 2 = k * 12 + (3 * i + 2)" by simp
  have n0: "createD10Geometry radius ! ((4 * k + i) * 3) = d10Block radius k ! (3 * i)"
    by (simp only: e0 createD10Geometry_nth [OF assms(1) j(1)])
  have n1: "createD10Geometry radius ! ((4 * k + i) * 3 + 1) = d10Block radius k ! (3 * i + 1)"
    by (simp only: e1 createD10Geometry_nth [OF assms(1) j(2)])
  have n2: "createD10Geometry radius ! ((4 * k + i) * 3 + 2) = d10Block radius k ! (3 * i + 2)"
    by (simp only: e2 createD10Geometry_nth [OF assms(1) j(3)])
  show ?thesis by (simp only: triNormal_def Let_def n0 n1 n2)
qed

lemma top_kite:
  assumes "k < 5"
  shows "triNormal (createD10Geometry radius) (4 * k) = triNormal (createD10Geometry radius) (4 * k + 1)"
    and "vy (triNormal (createD10Geometry radius) (4 * k)) = (radius * 0.85) * (radius * 0.85) * sin (pi / 5)"
proof -
  let ?c = "cos (pi / 5)" and ?h = "d10RingHeight radius" and ?r = "radius * 0.85"
  let ?a = "(real k * 2 * pi) / 5"
  let ?s = "?h + radius"
  let ?T = "Vector3 0 radius 0"
  let ?L = "Vector3 (?r * cos (?a + pi / 5)) (- ?h) (?r * sin (?a + pi / 5))"
  let ?U = "Vector3 (?r * cos ?a) ?h (?r * sin ?a)"
  let ?U' = "Vector3 (2 * ?c * (?r * cos (?a + pi / 5)) - ?r * cos ?a) ?h
              (2 * ?c * (?r * sin (?a + pi / 5)) - ?r * sin ?a)"
  have nk: "(k + 1) mod 5 < 5" by simp
  have lo: "d10Lower radius ! k = ?L" by (rule d10Lower_nth [OF assms])
  have up: "d10Upper radius ! k = ?U" by (rule d10Upper_nth [OF assms])
  have up': "d10Upper radius ! ((k + 1) mod 5) = ?U'"
    unfolding d10Upper_nth [OF nk] next_angle [OF assms]
    by (simp only: cos_step [of ?a "pi / 5"] sin_step [of ?a "pi / 5"]) (simp add: algebra_simps)
  have sL: "subVectors ?L ?T = Vector3 (?r * cos (?a + pi / 5)) (- ?s) (?r * sin (?a + pi / 5))"
    by (simp add: subVectors_def)
  have sU: "subVectors ?U ?T = Vector3 (?r * cos ?a) (- (?c * ?s)) (?r * sin ?a)"
    using ring_height [of radius] by (simp add: subVectors_def)
  have sU': "subVectors ?U' ?T =
      Vector3 (2 * ?c * (?r * cos (?a + pi / 5)) - ?r * cos ?a) (- (?c * ?s))
              (2 * ?c * (?r * sin (?a + pi / 5)) - ?r * sin ?a)"
    using ring_height [of radius] by (simp add: subVectors_def)
  have b0: "d10Block radius k ! (3 * 0) = ?T" "d10Block radius k ! (3 * 0 + 1) = d10Lower radius ! k"
    "d10Block radius k ! (3 * 0 + 2) = d10Upper radius ! k"
    by (simp_all add: d10Block_def Let_def)
  have b1: "d10Block radius k ! (3 * 1) = ?T"
    "d10Block radius k ! (3 * 1 + 1) = d10Upper radius ! ((k + 1) mod 5)"
    "d10Block radius k ! (3 * 1 + 2) = d10Lower radius ! k"
    by (simp_all add: d10Block_def Let_def)
  have "triNormal (createD10Geometry radius) (4 * k + 0) = crossVectors (subVectors ?L ?T) (subVectors ?U ?T)"
    by (simp only: tri_block [OF assms, of 0] b0 lo up)
  then have t0: "triNormal (createD10Geometry radius) (4 * k) = crossVectors (subVectors ?L ?T) (subVectors ?U ?T)"
    by simp
  have t1: "triNormal (createD10Geometry radius) (4 * k + 1) = crossVectors (subVectors ?U' ?T) (subVectors ?L ?T)"
    by (simp only: tri_block [OF assms, of 1] b1 lo up')
  show "triNormal (createD10Geometry radius) (4 * k) = triNormal (createD10Geometry radius) (4 * k + 1)"
    unfolding t0 t1 sL sU sU' by (rule kite_cross_top)
  have sd: "sin (?a + pi / 5) * cos ?a - cos (?a + pi / 5) * sin ?a = sin (pi / 5)"
    using sin_diff [of "?a + pi / 5" ?a] by simp
  have "vy (triNormal (createD10Geometry radius) (4 * k)) =
      ?r * ?r * (sin (?a + pi / 5) * cos ?a - cos (?a + pi / 5) * sin ?a)"
    unfolding t0 sL sU by (simp add: crossVectors_def algebra_simps)
  then show "vy (triNormal (createD10Geometry radius) (4 * k)) = ?r * ?r * sin (pi / 5)"
    by (simp only: sd)
qed

lemma bottom_kite:
  assumes "k < 5"
  shows "triNormal (createD10Geometry radius) (4 * k + 2) = triNormal (createD10Geometry radius) (4 * k + 3)"
    and "vy (triNormal (createD10Geometry radius) (4 * k + 2)) = - ((radius * 0.85) * (radius * 0.85) * sin (pi / 5))"
proof -
  let ?c = "cos (pi / 5)" and ?h = "d10RingHeight radius" and ?r = "radius * 0.85"
  let ?a = "(real k * 2 * pi) / 5"
  let ?s = "?h + radius"
  let ?B = "Vector3 0 (- radius) 0"
  let ?L = "Vector3 (?r * cos (?a + pi / 5)) (- ?h) (?r * sin (?a + pi / 5))"
  let ?U' = "Vector3 (?r * cos (?a + 2 * (pi / 5))) ?h (?r * sin (?a + 2 * (pi / 5)))"
  let ?L' = "Vector3 (2 * ?c * (?r * cos (?a + 2 * (pi / 5))) - ?r * cos (?a + pi / 5)) (- ?h)
              (2 * ?c * (?r * sin (?a + 2 * (pi / 5))) - ?r * sin (?a + pi / 5))"
  have nk: "(k + 1) mod 5 < 5" by simp
  have lo: "d10Lower radius ! k = ?L" by (rule d10Lower_nth [OF assms])
  have up': "d10Upper radius ! ((k + 1) mod 5) = ?U'"
    unfolding d10Upper_nth [OF nk] next_angle [OF assms] ..
  have e: "?a + pi / 5 + pi / 5 = ?a + 2 * (pi / 5)" by simp
  have lo': "d10Lower radius ! ((k + 1) mod 5) = ?L'"
    unfolding d10Lower_nth [OF nk] next_angle_lower [OF assms]
    by (simp only: cos_step [of "?a + pi / 5" "pi / 5"] sin_step [of "?a + pi / 5" "pi / 5"] e)
       (simp add: algebra_simps)
  have sL: "subVectors ?L ?B = Vector3 (?r * cos (?a + pi / 5)) (?c * ?s) (?r * sin (?a + pi / 5))"
    using ring_height [of radius] by (simp add: subVectors_def)
  have sU': "subVectors ?U' ?B = Vector3 (?r * cos (?a + 2 * (pi / 5))) ?s (?r * sin (?a + 2 * (pi / 5)))"
    by (simp add: subVectors_def)
  have sL': "subVectors ?L' ?B =
      Vector3 (2 * ?c * (?r * cos (?a + 2 * (pi / 5))) - ?r * cos (?a + pi / 5)) (?c * ?s)
              (2 * ?c * (?r * sin (?a + 2 * (pi / 5))) - ?r * sin (?a + pi / 5))"
    using ring_height [of radius] by (simp add: subVectors_def)
  have b2: "d10Block radius k ! (3 * 2) = ?B" "d10Block radius k ! (3 * 2 + 1) = d10Lower radius ! k"
    "d10Block radius k ! (3 * 2 + 2) = d10Upper radius ! ((k + 1) mod 5)"
    by (simp_all add: d10Block_def Let_def)
  have b3: "d10Block radius k ! (3 * 3) = ?B"
    "d10Block radius k ! (3 * 3 + 1) = d10Upper radius ! ((k + 1) mod 5)"
    "d10Block radius k ! (3 * 3 + 2) = d10Lower radius ! ((k + 1) mod 5)"
    by (simp_all add: d10Block_def Let_def)
  have t2: "triNormal (createD10Geometry radius) (4 * k + 2) = crossVectors (subVectors ?L ?B) (subVectors ?U' ?B)"
    by (simp only: tri_block [OF assms, of 2] b2 lo up')
  have t3: "triNormal (createD10Geometry radius) (4 * k + 3) = crossVectors (subVectors ?U' ?B) (subVectors ?L' ?B)"
    by (simp only: tri_block [OF assms, of 3] b3 lo' up')
  show "triNormal (createD10Geometry radius) (4 * k + 2) = triNormal (createD10Geometry radius) (4 * k + 3)"
    unfolding t2 t3 sL sU' sL' by (rule kite_cross_bottom)
  have sd: "sin (?a + 2 * (pi / 5)) * cos (?a + pi / 5) - cos (?a + 2 * (pi / 5)) * sin (?a + pi / 5) = sin (pi / 5)"
    using sin_diff [of "?a + 2 * (pi / 5)" "?a + pi / 5"] by simp
  have "vy (triNormal (createD10Geometry radius) (4 * k + 2)) =
      - (?r * ?r * (sin (?a + 2 * (pi / 5)) * cos (?a + pi / 5) - cos (?a + 2 * (pi / 5)) * sin (?a + pi / 5)))"
    unfolding t2 sL sU' by (simp add: crossVectors_def algebra_simps)
  then show "vy (triNormal (createD10Geometry radius) (4 * k + 2)) = - (?r * ?r * sin (pi / 5))"
    by (simp only: sd)
qed

text \<open>
  C8: \<open>createD10Geometry radius\<close> emits 20 triangles. For every \<open>k\<close> below 5 the
  vertices emitted for \<open>k\<close> are the poles (0, radius, 0) and (0, -radius, 0), the upper
  ring vertices at the angles \<open>2 \<pi> k / 5\<close> and \<open>2 \<pi> ((k + 1) mod 5) / 5\<close> and height
  \<open>h\<close>, and the lower ring vertices at those angles plus \<open>\<pi> / 5\<close> (36 degrees) and height
  \<open>-h\<close>, where \<open>h / radius = (1 - cos 36\<degree>) / (1 + cos 36\<degree>)\<close>. The two triangles
  of the upper kite have the same normal vector, and so have the two of the lower kite:
  the four vertices of each kite lie in a plane. For a radius other than 0 these normals
  are not zero.
\<close>

theorem createD10Geometry_planar_kites:
  assumes "k < 5"
  shows "length (createD10Geometry radius) = 20 * 3 \<and>
         createD10Geometry radius ! (k * 12) = Vector3 0 radius 0 \<and>
         createD10Geometry radius ! (k * 12 + 6) = Vector3 0 (- radius) 0 \<and>
         createD10Geometry radius ! (k * 12 + 2) =
           Vector3 (radius * 0.85 * cos ((real k * 2 * pi) / 5)) (d10RingHeight radius)
                   (radius * 0.85 * sin ((real k * 2 * pi) / 5)) \<and>
         createD10Geometry radius ! (k * 12 + 1) =
           Vector3 (radius * 0.85 * cos ((real k * 2 * pi) / 5 + pi / 5)) (- d10RingHeight radius)
                   (radius * 0.85 * sin ((real k * 2 * pi) / 5 + pi / 5)) \<and>
         createD10Geometry radius ! (k * 12 + 4) = d10Upper radius ! ((k + 1) mod 5) \<and>
         createD10Geometry radius ! (k * 12 + 11) = d10Lower radius ! ((k + 1) mod 5) \<and>
         (radius \<noteq> 0 \<longrightarrow>
            d10RingHeight radius / radius = (1 - cos (pi / 5)) / (1 + cos (pi / 5))) \<and>
         triNormal (createD10Geometry radius) (4 * k) = triNormal (createD10Geometry radius) (4 * k + 1) \<and>
         triNormal (createD10Geometry radius) (4 * k + 2) = triNormal (createD10Geometry radius) (4 * k + 3) \<and>
         (radius \<noteq> 0 \<longrightarrow>
            triNormal (createD10Geometry radius) (4 * k) \<noteq> Vector3 0 0 0 \<and>
            triNormal (createD10Geometry radius) (4 * k + 2) \<noteq> Vector3 0 0 0)"
proof -
  have nth: "createD10Geometry radius ! (k * 12 + j) = d10Block radius k ! j" if "j < 12" for j
    by (rule createD10Geometry_nth [OF assms that])
  have v0: "createD10Geometry radius ! (k * 12) = Vector3 0 radius 0"
    using nth [of 0] by (simp add: d10Block_def Let_def)
  have v6: "createD10Geometry radius ! (k * 12 + 6) = Vector3 0 (- radius) 0"
    using nth [of 6] by (simp add: d10Block_def Let_def)
  have v2: "createD10Geometry radius ! (k * 12 + 2) = d10Upper radius ! k"
    using nth [of 2] by (simp add: d10Block_def Let_def)
  have v1: "createD10Geometry radius ! (k * 12 + 1) = d10Lower radius ! k"
    using nth [of 1] by (simp add: d10Block_def Let_def)
  have v4: "createD10Geometry radius ! (k * 12 + 4) = d10Upper radius ! ((k + 1) mod 5)"
    using nth [of 4] by (simp add: d10Block_def Let_def)
  have v11: "createD10Geometry radius ! (k * 12 + 11) = d10Lower radius ! ((k + 1) mod 5)"
    using nth [of 11] by (simp add: d10Block_def Let_def)
  have ratio: "d10RingHeight radius / radius = (1 - cos (pi / 5)) / (1 + cos (pi / 5))"
    if "radius \<noteq> 0"
    using that by (simp add: d10RingHeight_def)
  have nz: "triNormal (createD10Geometry radius) (4 * k) \<noteq> Vector3 0 0 0 \<and>
            triNormal (createD10Geometry radius) (4 * k + 2) \<noteq> Vector3 0 0 0" if "radius \<noteq> 0"
  proof -
    from that sin36_pos have p: "(radius * 0.85) * (radius * 0.85) * sin (pi / 5) \<noteq> 0" by simp
    then have q: "- ((radius * 0.85) * (radius * 0.85) * sin (pi / 5)) \<noteq> 0" by argo
    have "vy (triNormal (createD10Geometry radius) (4 * k)) \<noteq> 0"
      unfolding top_kite(2) [OF assms] by (rule p)
    moreover have "vy (triNormal (createD10Geometry radius) (4 * k + 2)) \<noteq> 0"
      unfolding bottom_kite(2) [OF assms] by (rule q)
    ultimately show ?thesis by auto
  qed
  show ?thesis
    using createD10Geometry_length [of radius] v0 v6 v2 v1 v4 v11 ratio nz
      top_kite(1) [OF assms, of radius] bottom_kite(1) [OF assms, of radius]
    by (simp add: d10Upper_nth [OF assms] d10Lower_nth [OF assms])
qed

theorem createD10Geometry_planar_kites_witness:
  "(0::nat) < 5 \<and> (1.2::real) \<noteq> 0 \<and>
   length (createD10Geometry 1.2) = 20 * 3 \<and>
   createD10Geometry 1.2 ! (0 * 12) = Vector3 0 1.2 0 \<and>
   createD10Geometry 1.2 ! (0 * 12 + 6) = Vector3 0 (- 1.2) 0 \<and>
   d10RingHeight 1.2 / 1.2 = (1 - cos (pi / 5)) / (1 + cos (pi / 5)) \<and>
   triNormal (createD10Geometry 1.2) (4 * 0) = triNormal (createD10Geometry 1.2) (4 * 0 + 1) \<and>
   triNormal (createD10Geometry 1.2) (4 * 0 + 2) = triNormal (createD10Geometry 1.2) (4 * 0 + 3) \<and>
   triNormal (createD10Geometry 1.2) (4 * 0) \<noteq> Vector3 0 0 0"
proof -
  have k: "(0::nat) < 5" and r: "(1.2::real) \<noteq> 0" by simp_all
  from createD10Geometry_planar_kites [OF k, of "1.2"] k r show ?thesis by blast
qed

end
